theory Spec2Isabelle
  imports Complex_Main "HOL-Library.Word" "HOL-Library.Log_Nat"
begin

section \<open>Streaming sketches: Flajolet-Martin estimators and a Bloom filter\<close>

text \<open>
  The notebooks define three classes: \<^verbatim>\<open>FlajoletMartinSimple\<close> and
  \<^verbatim>\<open>FlajoletMartinMultiple\<close> in the notebook that counts distinct elements, and
  \<^verbatim>\<open>BloomFilter\<close> in the Bloom filter notebook. The repository holds two copies
  of the latter; the model follows the copy whose \<^verbatim>\<open>_hashes\<close> takes the first
  component of the pair that \<^verbatim>\<open>mmh3.hash64\<close> returns (the other copy applies
  \<^verbatim>\<open>%\<close> to the pair itself). The methods are embedded below as functions on
  explicit states. The hash functions come from libraries (hashlib, mmh3) and are
  parameters of the model; every Python exception is a value of \<open>py_error\<close>.
\<close>

datatype py_error = ValueError | IndexError | ZeroDivisionError | OverflowError

subsection \<open>Tail length\<close>

text \<open>
  \<^verbatim>\<open>bin(hash_value)[2:]\<close> for a non-negative integer: the binary digits, most
  significant first, and the single digit \<^verbatim>\<open>0\<close> for zero.
\<close>

fun bin_digits :: "nat \<Rightarrow> string" where
  "bin_digits n =
     (if n < 2 then [if n = 0 then CHR ''0'' else CHR ''1'']
      else bin_digits (n div 2) @ [if n mod 2 = 0 then CHR ''0'' else CHR ''1''])"

declare bin_digits.simps [simp del]

text \<open>\<^verbatim>\<open>s.rstrip('0')\<close>: the string without its trailing zeros.\<close>

definition rstrip0 :: "string \<Rightarrow> string" where
  "rstrip0 s = rev (dropWhile (\<lambda>c. c = CHR ''0'') (rev s))"

text \<open>
  \<^verbatim>\<open>_tail_length\<close>, the same body in both estimator classes:
  \<^verbatim>\<open>
  binary_hash = bin(hash_value)[2:]
  return len(binary_hash) - len(binary_hash.rstrip('0'))
  \<close>
\<close>

definition tail_length :: "nat \<Rightarrow> nat" where
  "tail_length hash_value =
     (let binary_hash = bin_digits hash_value
      in length binary_hash - length (rstrip0 binary_hash))"

subsection \<open>FlajoletMartinSimple\<close>

text \<open>
  The state is the one attribute \<^verbatim>\<open>max_tail_length\<close>. \<^verbatim>\<open>_hash\<close> reads the
  SHA-256 digest of the UTF-8 bytes of the value as an integer; the digest function is the
  parameter \<open>sha256\<close>, a 256-bit word.
\<close>

record fm_simple =
  max_tail_length :: nat

type_synonym sha256_fn = "string \<Rightarrow> 256 word"

definition simple_init :: fm_simple where
  "simple_init = \<lparr>max_tail_length = 0\<rparr>"

definition simple_hash :: "sha256_fn \<Rightarrow> string \<Rightarrow> nat" where
  "simple_hash sha256 v = unat (sha256 v)"

definition simple_process :: "sha256_fn \<Rightarrow> fm_simple \<Rightarrow> string \<Rightarrow> fm_simple" where
  "simple_process sha256 s v =
     (let hash_value = simple_hash sha256 v;
          tail_len = tail_length hash_value
      in s\<lparr>max_tail_length := max (max_tail_length s) tail_len\<rparr>)"

definition simple_estimate_cardinality :: "fm_simple \<Rightarrow> int" where
  "simple_estimate_cardinality s = 2 ^ max_tail_length s"

subsection \<open>Python floats\<close>

text \<open>
  A Python float is an IEEE 754 binary64 number. The model carries a float as the real
  number it denotes and rounds the exact result of every operation to the nearest double,
  ties to the even significand. For a positive real \<open>a\<close>, \<open>binary_exponent a\<close> is
  the integer \<open>e\<close> with \<open>2 ^ e \<le> a < 2 ^ (e + 1)\<close>; the doubles around \<open>a\<close> are the
  multiples of \<open>2 ^ (e - 52)\<close>, and the multiples of \<open>2 ^ (- 1074)\<close> in the subnormal
  range. A result that rounds to \<open>2 ^ 1024\<close> or more is an infinity: the real
  \<open>2 ^ 1024\<close>, which is not a double, stands for \<^verbatim>\<open>inf\<close> and its negation for
  \<^verbatim>\<open>-inf\<close>. NaN and the sign of zero are not represented: the estimators divide
  powers of two by the one constant \<^verbatim>\<open>phi\<close> and add the quotients, which all
  have the sign of \<^verbatim>\<open>phi\<close>, so that neither arises.
\<close>

definition binary_exponent :: "real \<Rightarrow> int" where
  "binary_exponent a =
     (if 1 \<le> a then bitlen \<lfloor>a\<rfloor> - 1 else - bitlen (\<lceil>1 / a\<rceil> - 1))"

definition round_half_even :: "real \<Rightarrow> int" where
  "round_half_even y =
     (let f = \<lfloor>y\<rfloor>; d = y - real_of_int f
      in if d < 1 / 2 then f else if 1 / 2 < d then f + 1
         else if even f then f else f + 1)"

definition inf_double :: real where
  "inf_double = 2 ^ 1024"

definition is_inf :: "real \<Rightarrow> bool" where
  "is_inf x \<longleftrightarrow> \<bar>x\<bar> = inf_double"

definition ulp_exponent :: "real \<Rightarrow> int" where
  "ulp_exponent a = max (binary_exponent a - 52) (- 1074)"

definition round_magnitude :: "real \<Rightarrow> real" where
  "round_magnitude a =
     (let u = 2 powi ulp_exponent a;
          r = real_of_int (round_half_even (a / u)) * u
      in if inf_double \<le> r then inf_double else r)"

definition to_double :: "real \<Rightarrow> real" where
  "to_double x = (if x = 0 then 0 else sgn x * round_magnitude \<bar>x\<bar>)"

text \<open>
  The float operations of the program. \<^verbatim>\<open>x + y\<close> and \<^verbatim>\<open>x / y\<close> on floats
  raise nothing on overflow: the result is an infinity, and an infinite operand stays
  infinite (the divisors of the program are finite and, where \<open>float_div\<close> is
  applied, non-zero). \<^verbatim>\<open>float(n)\<close>, the conversion that \<^verbatim>\<open>/\<close> applies to an
  integer operand, raises OverflowError for an integer that rounds to \<open>2 ^ 1024\<close> or
  more. \<^verbatim>\<open>n / y\<close> with an integer \<^verbatim>\<open>n\<close> and a float \<^verbatim>\<open>y\<close> converts first
  and then raises ZeroDivisionError for a zero divisor. \<^verbatim>\<open>int(x)\<close> truncates
  towards zero and raises OverflowError for an infinity.
\<close>

definition float_add :: "real \<Rightarrow> real \<Rightarrow> real" where
  "float_add x y = (if is_inf x then x else if is_inf y then y else to_double (x + y))"

definition float_div :: "real \<Rightarrow> real \<Rightarrow> real" where
  "float_div x y =
     (if is_inf x then (if 0 < y then x else - x) else to_double (x / y))"

definition py_float :: "int \<Rightarrow> py_error + real" where
  "py_float n =
     (let x = to_double (real_of_int n)
      in if is_inf x then Inl OverflowError else Inr x)"

definition int_div_float :: "int \<Rightarrow> real \<Rightarrow> py_error + real" where
  "int_div_float n y =
     (case py_float n of
        Inl e \<Rightarrow> Inl e
      | Inr x \<Rightarrow> if y = 0 then Inl ZeroDivisionError else Inr (float_div x y))"

definition py_int :: "real \<Rightarrow> py_error + int" where
  "py_int x =
     (if is_inf x then Inl OverflowError
      else Inr (if 0 \<le> x then \<lfloor>x\<rfloor> else \<lceil>x\<rceil>))"

text \<open>
  \<^verbatim>\<open>sum(xs)\<close> of a list of floats: Python 3.11, the version of the notebooks'
  kernel, starts from the integer 0 and adds the elements from left to right in double
  arithmetic.
\<close>

definition py_sum :: "real list \<Rightarrow> real" where
  "py_sum xs = foldl float_add 0 xs"

text \<open>
  The notebook corrects the simple estimate outside the class, in the cell that calls it:
  \<^verbatim>\<open>cardinality = int(cardinality / phi)\<close> with the module constant
  \<^verbatim>\<open>phi = 0.77351\<close>, the double nearest to that decimal.
\<close>

definition phi_global :: real where
  "phi_global = to_double (77351 / 100000)"

definition caller_corrected :: "int \<Rightarrow> py_error + int" where
  "caller_corrected cardinality =
     (case int_div_float cardinality phi_global of
        Inl e \<Rightarrow> Inl e
      | Inr x \<Rightarrow> py_int x)"

text \<open>A stub digest for concrete runs: every value hashes to 4 (binary 100).\<close>

definition stub_sha256 :: sha256_fn where
  "stub_sha256 v = 4"

subsection \<open>FlajoletMartinMultiple\<close>

text \<open>
  The attributes of the class; \<open>max_tail_length_m\<close> is its \<^verbatim>\<open>max_tail_length\<close>
  matrix (a list of \<^verbatim>\<open>num_groups\<close> separate row lists). The seeds are drawn by
  \<^verbatim>\<open>random.randint(0, 2**32 - 1)\<close>: the sequence of draws is the parameter
  \<open>randint\<close>. \<^verbatim>\<open>_hash\<close> is \<^verbatim>\<open>mmh3.hash128(value, seed)\<close>, an unsigned
  128-bit integer, the parameter \<open>hash128\<close>. (The older copy of the notebook hashes
  the string \<^verbatim>\<open>f"{seed}-{value}"\<close> with SHA-256 instead; nothing below depends on
  which hash is used.)
\<close>

record fm_multiple =
  num_groups :: int
  hashes_per_group :: int
  num_hashes :: int
  max_tail_length_m :: "nat list list"
  seeds :: "32 word list"
  phi :: real

type_synonym hash128_fn = "string \<Rightarrow> 32 word \<Rightarrow> 128 word"

definition multiple_init :: "(nat \<Rightarrow> 32 word) \<Rightarrow> int \<Rightarrow> int \<Rightarrow> fm_multiple" where
  "multiple_init randint ng hpg =
     \<lparr>num_groups = ng, hashes_per_group = hpg, num_hashes = ng * hpg,
      max_tail_length_m = replicate (nat ng) (replicate (nat hpg) 0),
      seeds = map randint [0..<nat (ng * hpg)],
      phi = phi_global\<rparr>"

definition multiple_hash :: "hash128_fn \<Rightarrow> string \<Rightarrow> 32 word \<Rightarrow> nat" where
  "multiple_hash hash128 v seed = unat (hash128 v seed)"

text \<open>
  Python list indexing \<^verbatim>\<open>xs[i]\<close>: a negative index counts from the end, an index
  out of range raises IndexError.
\<close>

definition py_index :: "nat \<Rightarrow> int \<Rightarrow> nat option" where
  "py_index n i =
     (if 0 \<le> i \<and> i < int n then Some (nat i)
      else if - int n \<le> i \<and> i < 0 then Some (nat (int n + i))
      else None)"

text \<open>A \<^verbatim>\<open>for\<close> loop whose body may raise: the first exception ends it.\<close>

fun for_each :: "('s \<Rightarrow> 'a \<Rightarrow> py_error + 's) \<Rightarrow> 's \<Rightarrow> 'a list \<Rightarrow> py_error + 's" where
  "for_each body s [] = Inr s"
| "for_each body s (x # xs) =
     (case body s x of Inl e \<Rightarrow> Inl e | Inr s' \<Rightarrow> for_each body s' xs)"

text \<open>
  The body of the inner loop of \<^verbatim>\<open>process\<close>:
  \<^verbatim>\<open>
  index = group * self.hashes_per_group + i
  hash_value = self._hash(value, self.seeds[index])
  trailing_zeros = self._tail_length(hash_value)
  self.max_tail_length[group][i] = max(self.max_tail_length[group][i], trailing_zeros)
  \<close>
\<close>

definition update_cell ::
  "hash128_fn \<Rightarrow> string \<Rightarrow> nat \<Rightarrow> fm_multiple \<Rightarrow> nat \<Rightarrow> py_error + fm_multiple" where
  "update_cell hash128 v grp s i =
     (let index = int grp * hashes_per_group s + int i
      in case py_index (length (seeds s)) index of
           None \<Rightarrow> Inl IndexError
         | Some k \<Rightarrow>
             let hash_value = multiple_hash hash128 v (seeds s ! k);
                 trailing_zeros = tail_length hash_value;
                 m = max_tail_length_m s
             in if length m \<le> grp then Inl IndexError
                else if length (m ! grp) \<le> i then Inl IndexError
                else Inr (s\<lparr>max_tail_length_m :=
                            m[grp := (m ! grp)[i := max (m ! grp ! i) trailing_zeros]]\<rparr>))"

definition process_group ::
  "hash128_fn \<Rightarrow> string \<Rightarrow> fm_multiple \<Rightarrow> nat \<Rightarrow> py_error + fm_multiple" where
  "process_group hash128 v s grp =
     for_each (update_cell hash128 v grp) s [0..<nat (hashes_per_group s)]"

definition multiple_process ::
  "hash128_fn \<Rightarrow> fm_multiple \<Rightarrow> string \<Rightarrow> py_error + fm_multiple" where
  "multiple_process hash128 s v =
     for_each (process_group hash128 v) s [0..<nat (num_groups s)]"

text \<open>
  \<^verbatim>\<open>estimate_cardinality\<close>, one group:
  \<^verbatim>\<open>
  sorted_array = sorted([2 ** r / self.phi for r in group])
  median = sorted_array[len(sorted_array) // 2]
  \<close>
  The list comprehension evaluates \<^verbatim>\<open>2 ** r / self.phi\<close> cell by cell, an
  integer divided by a float: the first cell whose power does not convert to a float
  ends it with OverflowError, a zero \<^verbatim>\<open>phi\<close> with ZeroDivisionError. The
  indexing raises IndexError for an empty group.
\<close>

fun corrected_values :: "real \<Rightarrow> nat list \<Rightarrow> py_error + real list" where
  "corrected_values p [] = Inr []"
| "corrected_values p (r # rs) =
     (case int_div_float (2 ^ r) p of
        Inl e \<Rightarrow> Inl e
      | Inr x \<Rightarrow>
          (case corrected_values p rs of
             Inl e \<Rightarrow> Inl e
           | Inr xs \<Rightarrow> Inr (x # xs)))"

definition group_median :: "real \<Rightarrow> nat list \<Rightarrow> py_error + real" where
  "group_median p grp =
     (case corrected_values p grp of
        Inl e \<Rightarrow> Inl e
      | Inr corrected \<Rightarrow>
          let sorted_array = sort corrected
          in if sorted_array = [] then Inl IndexError
             else Inr (sorted_array ! (length sorted_array div 2)))"

fun group_medians :: "real \<Rightarrow> nat list list \<Rightarrow> py_error + real list" where
  "group_medians p [] = Inr []"
| "group_medians p (grp # grps) =
     (case group_median p grp of
        Inl e \<Rightarrow> Inl e
      | Inr median \<Rightarrow>
          (case group_medians p grps of
             Inl e \<Rightarrow> Inl e
           | Inr medians \<Rightarrow> Inr (median # medians)))"

text \<open>
  \<^verbatim>\<open>
  estimate = sum(group_medians) / len(group_medians)
  return int(estimate)
  \<close>
  Without groups the division is \<^verbatim>\<open>0 / 0\<close> on integers and raises
  ZeroDivisionError. Otherwise the sum is a float and the length, which is below
  \<open>2 ^ 63\<close> for every Python list, converts to a float without overflow.
\<close>

definition mean_estimate :: "real list \<Rightarrow> py_error + real" where
  "mean_estimate medians =
     (if medians = [] then Inl ZeroDivisionError
      else Inr (float_div (py_sum medians) (to_double (real (length medians)))))"

definition multiple_estimate_cardinality :: "fm_multiple \<Rightarrow> py_error + int" where
  "multiple_estimate_cardinality s =
     (case group_medians (phi s) (max_tail_length_m s) of
        Inl e \<Rightarrow> Inl e
      | Inr medians \<Rightarrow>
          (case mean_estimate medians of
             Inl e \<Rightarrow> Inl e
           | Inr estimate \<Rightarrow> py_int estimate))"

text \<open>A run of \<^verbatim>\<open>process\<close> calls over a stream of values.\<close>

definition simple_process_all :: "sha256_fn \<Rightarrow> fm_simple \<Rightarrow> string list \<Rightarrow> fm_simple" where
  "simple_process_all sha256 s vs = foldl (simple_process sha256) s vs"

definition multiple_process_all ::
  "hash128_fn \<Rightarrow> fm_multiple \<Rightarrow> string list \<Rightarrow> py_error + fm_multiple" where
  "multiple_process_all hash128 s vs = for_each (multiple_process hash128) s vs"

text \<open>
  Stubs for concrete runs: the \<open>k\<close>-th seed drawn is \<open>k\<close>, and every value
  hashes to \<open>4 * (seed + 1)\<close>: 4 (binary 100) under seed 0, 8 (binary 1000) under
  seed 1.
\<close>

definition stub_randint :: "nat \<Rightarrow> 32 word" where
  "stub_randint k = of_nat k"

definition stub_hash128 :: hash128_fn where
  "stub_hash128 v seed = 4 * (ucast seed + 1)"

text \<open>The states that the stubs reach from fresh instances by processing one value.\<close>

definition stub_single_state :: fm_multiple where
  "stub_single_state =
     \<lparr>num_groups = 1, hashes_per_group = 1, num_hashes = 1,
      max_tail_length_m = [[2]], seeds = [0], phi = phi_global\<rparr>"

definition stub_pair_state :: fm_multiple where
  "stub_pair_state =
     \<lparr>num_groups = 1, hashes_per_group = 2, num_hashes = 2,
      max_tail_length_m = [[2, 3]], seeds = [0, 1], phi = phi_global\<rparr>"

definition stub_two_state :: fm_multiple where
  "stub_two_state =
     \<lparr>num_groups = 2, hashes_per_group = 1, num_hashes = 2,
      max_tail_length_m = [[2], [3]], seeds = [0, 1], phi = phi_global\<rparr>"

text \<open>
  Two further states, of instances with six and with ten groups of one hash: the cells of
  the first all hold the tail length 52, those of the second the tail lengths 0, 1, 2, 5,
  9, 10, 11, 13, 15 and 15.
\<close>

definition stub_six_state :: fm_multiple where
  "stub_six_state =
     \<lparr>num_groups = 6, hashes_per_group = 1, num_hashes = 6,
      max_tail_length_m = [[52], [52], [52], [52], [52], [52]],
      seeds = [0, 1, 2, 3, 4, 5], phi = phi_global\<rparr>"

definition stub_ten_state :: fm_multiple where
  "stub_ten_state =
     \<lparr>num_groups = 10, hashes_per_group = 1, num_hashes = 10,
      max_tail_length_m = [[0], [1], [2], [5], [9], [10], [11], [13], [15], [15]],
      seeds = [0, 1, 2, 3, 4, 5, 6, 7, 8, 9], phi = phi_global\<rparr>"

subsection \<open>BloomFilter\<close>

text \<open>
  \<open>size_bf\<close> is the attribute \<^verbatim>\<open>size\<close>. The constructor builds
  \<^verbatim>\<open>bitarray(bitmap_size)\<close> and clears it; the bitarray library raises ValueError for
  a negative length. \<^verbatim>\<open>mmh3.hash64(value, i)\<close> returns a pair of signed 64-bit
  integers, the parameter \<open>hash64\<close>; \<^verbatim>\<open>_hashes\<close> takes the first component
  modulo \<^verbatim>\<open>self.size\<close> (Python's \<^verbatim>\<open>%\<close> has the sign of the divisor, as
  \<open>mod\<close> on \<open>int\<close> has, and raises ZeroDivisionError for a zero divisor).
\<close>

record bloom_filter =
  size_bf :: int
  hash_count :: int
  bit_array :: "bool list"

type_synonym hash64_fn = "string \<Rightarrow> nat \<Rightarrow> 64 word \<times> 64 word"

definition bloom_init :: "int \<Rightarrow> int \<Rightarrow> py_error + bloom_filter" where
  "bloom_init bitmap_size hc =
     (if bitmap_size < 0 then Inl ValueError
      else Inr \<lparr>size_bf = bitmap_size, hash_count = hc,
                bit_array = replicate (nat bitmap_size) False\<rparr>)"

definition bloom_hashes :: "hash64_fn \<Rightarrow> bloom_filter \<Rightarrow> string \<Rightarrow> py_error + int list" where
  "bloom_hashes hash64 s v =
     (if hash_count s \<le> 0 then Inr []
      else if size_bf s = 0 then Inl ZeroDivisionError
      else Inr (map (\<lambda>i. sint (fst (hash64 v i)) mod size_bf s) [0..<nat (hash_count s)]))"

definition set_bit_at :: "bool list \<Rightarrow> int \<Rightarrow> py_error + bool list" where
  "set_bit_at bits hash_val =
     (case py_index (length bits) hash_val of
        None \<Rightarrow> Inl IndexError
      | Some k \<Rightarrow> Inr (bits[k := True]))"

definition bloom_add :: "hash64_fn \<Rightarrow> bloom_filter \<Rightarrow> string \<Rightarrow> py_error + bloom_filter" where
  "bloom_add hash64 s v =
     (case bloom_hashes hash64 s v of
        Inl e \<Rightarrow> Inl e
      | Inr hs \<Rightarrow>
          (case for_each set_bit_at (bit_array s) hs of
             Inl e \<Rightarrow> Inl e
           | Inr bits \<Rightarrow> Inr (s\<lparr>bit_array := bits\<rparr>)))"

text \<open>
  \<^verbatim>\<open>all(self.bit_array[hash_val] for hash_val in self._hashes(value))\<close>: the
  generator is consumed up to the first false bit.
\<close>

fun all_bits :: "bool list \<Rightarrow> int list \<Rightarrow> py_error + bool" where
  "all_bits bits [] = Inr True"
| "all_bits bits (hash_val # hs) =
     (case py_index (length bits) hash_val of
        None \<Rightarrow> Inl IndexError
      | Some k \<Rightarrow> if bits ! k then all_bits bits hs else Inr False)"

definition bloom_query :: "hash64_fn \<Rightarrow> bloom_filter \<Rightarrow> string \<Rightarrow> py_error + bool" where
  "bloom_query hash64 s v =
     (case bloom_hashes hash64 s v of
        Inl e \<Rightarrow> Inl e
      | Inr hs \<Rightarrow> all_bits (bit_array s) hs)"

definition bloom_add_all ::
  "hash64_fn \<Rightarrow> bloom_filter \<Rightarrow> string list \<Rightarrow> py_error + bloom_filter" where
  "bloom_add_all hash64 s vs = for_each (bloom_add hash64) s vs"

text \<open>
  A stub for concrete runs, with negative hash values: the first component is minus the
  length of the value minus the seed. In an 8-bit filter with 3 hashes the value a has
  the indices 7, 6, 5 and the value bb the indices 6, 5, 4.
\<close>

definition stub_hash64 :: hash64_fn where
  "stub_hash64 v i = (- of_nat (length v) - of_nat i, 0)"

definition stub_bloom_a :: bloom_filter where
  "stub_bloom_a =
     \<lparr>size_bf = 8, hash_count = 3,
      bit_array = [False, False, False, False, False, True, True, True]\<rparr>"

definition stub_bloom_ab :: bloom_filter where
  "stub_bloom_ab =
     \<lparr>size_bf = 8, hash_count = 3,
      bit_array = [False, False, False, False, True, True, True, True]\<rparr>"

subsection \<open>Invariants and notions used in the statements\<close>

text \<open>
  The shape of a \<^verbatim>\<open>FlajoletMartinMultiple\<close> instance: the matrix has
  \<^verbatim>\<open>num_groups\<close> rows of \<^verbatim>\<open>hashes_per_group\<close> cells and there is a seed
  for every cell. \<open>same_frame\<close> says that two states differ in the matrix only,
  \<open>cell\<close> reads one cell, and \<open>tz_at\<close> is the tail length that
  \<^verbatim>\<open>process\<close> computes for a value at a cell.
\<close>

definition wf_multiple :: "fm_multiple \<Rightarrow> bool" where
  "wf_multiple s \<longleftrightarrow>
     length (max_tail_length_m s) = nat (num_groups s) \<and>
     (\<forall>g<length (max_tail_length_m s).
        length (max_tail_length_m s ! g) = nat (hashes_per_group s)) \<and>
     nat (num_groups s) * nat (hashes_per_group s) \<le> length (seeds s)"

definition same_frame :: "fm_multiple \<Rightarrow> fm_multiple \<Rightarrow> bool" where
  "same_frame s s' \<longleftrightarrow>
     num_groups s' = num_groups s \<and> hashes_per_group s' = hashes_per_group s \<and>
     num_hashes s' = num_hashes s \<and> seeds s' = seeds s \<and> phi s' = phi s"

definition cell :: "fm_multiple \<Rightarrow> nat \<Rightarrow> nat \<Rightarrow> nat" where
  "cell s g i = max_tail_length_m s ! g ! i"

definition tz_at :: "hash128_fn \<Rightarrow> string \<Rightarrow> fm_multiple \<Rightarrow> nat \<Rightarrow> nat \<Rightarrow> nat" where
  "tz_at hf v s g i =
     tail_length (multiple_hash hf v (seeds s ! (g * nat (hashes_per_group s) + i)))"

text \<open>
  The shape of a \<^verbatim>\<open>BloomFilter\<close> instance with a positive size: the bit array
  has \<^verbatim>\<open>size\<close> bits. \<open>in_range n hs\<close> says that the indices \<open>hs\<close>
  lie in \<open>[0, n)\<close>.
\<close>

definition bloom_inv :: "bloom_filter \<Rightarrow> bool" where
  "bloom_inv s \<longleftrightarrow> 0 < size_bf s \<and> length (bit_array s) = nat (size_bf s)"

definition in_range :: "nat \<Rightarrow> int list \<Rightarrow> bool" where
  "in_range n hs \<longleftrightarrow> (\<forall>x\<in>set hs. 0 \<le> x \<and> x < int n)"

text \<open>
  \<open>cells_below b s\<close> says that every cell of the matrix is below \<open>b\<close>. The cells
  of a state that \<^verbatim>\<open>process\<close> reaches from the constructor are tail lengths of
  128-bit hash values and so below 128.
\<close>

definition cells_below :: "nat \<Rightarrow> fm_multiple \<Rightarrow> bool" where
  "cells_below b s \<longleftrightarrow> (\<forall>grp\<in>set (max_tail_length_m s). \<forall>r\<in>set grp. r < b)"

text \<open>
  The two middle elements of a list: \<open>lower_middle\<close> is the element at position
  \<open>(n - 1) div 2\<close> of the ascending sort, \<open>upper_middle\<close> the element at the same
  position of the descending sort. They differ in position for an even length only.
  \<open>spec_estimate_cardinality\<close> follows the words of the specification, which take the
  lower-middle element of every group, in the float arithmetic of the code; it is compared
  with the code's \<open>multiple_estimate_cardinality\<close>.
\<close>

definition lower_middle :: "real list \<Rightarrow> real" where
  "lower_middle xs = sort xs ! ((length xs - 1) div 2)"

definition upper_middle :: "real list \<Rightarrow> real" where
  "upper_middle xs = rev (sort xs) ! ((length xs - 1) div 2)"

definition upper_medians :: "real \<Rightarrow> nat list list \<Rightarrow> real list" where
  "upper_medians p rows =
     map (\<lambda>grp. upper_middle (map (\<lambda>r. float_div (2 ^ r) p) grp)) rows"

definition spec_estimate_cardinality :: "fm_multiple \<Rightarrow> py_error + int" where
  "spec_estimate_cardinality s =
     py_int (float_div
               (py_sum (map (\<lambda>grp. lower_middle (map (\<lambda>r. float_div (2 ^ r) (phi s)) grp))
                            (max_tail_length_m s)))
               (to_double (real (length (max_tail_length_m s)))))"

section \<open>Properties\<close>

subsection \<open>Rounding to the nearest double\<close>

lemma binary_exponent_bracket:
  assumes "0 < a"
  shows "2 powi binary_exponent a \<le> a" "a < 2 powi (binary_exponent a + 1)"
proof -
  have "2 powi binary_exponent a \<le> a \<and> a < 2 powi (binary_exponent a + 1)"
  proof (cases "1 \<le> a")
    case True
    let ?n = "\<lfloor>a\<rfloor>"
    from True have n: "0 < ?n" by simp
    let ?b = "bitlen ?n"
    from n have b1: "1 \<le> ?b" by (auto simp: bitlen_alt_def)
    from bitlen_bounds [OF n] have lo: "2 ^ nat (?b - 1) \<le> ?n" and hi: "?n < 2 ^ nat ?b"
      by simp_all
    have e: "binary_exponent a = ?b - 1" using True by (simp add: binary_exponent_def)
    have "real_of_int (2 ^ nat (?b - 1)) \<le> real_of_int ?n" using lo by linarith
    also have "\<dots> \<le> a" by simp
    finally have 1: "2 powi (?b - 1) \<le> a"
      using b1 by (simp add: power_int_def)
    have "?n + 1 \<le> 2 ^ nat ?b" using hi by simp
    then have "real_of_int (?n + 1) \<le> real_of_int (2 ^ nat ?b)" by linarith
    moreover have "a < real_of_int (?n + 1)" by linarith
    ultimately have "a < real_of_int (2 ^ nat ?b)" by linarith
    then have 2: "a < 2 powi ?b"
      using b1 by (simp add: power_int_def)
    from 1 2 e show ?thesis by simp
  next
    case False
    with assms have a1: "a < 1" by simp
    let ?c = "\<lceil>1 / a\<rceil>"
    have inv: "1 < 1 / a" using assms a1 by simp
    then have c2: "2 \<le> ?c" by linarith
    let ?b = "bitlen (?c - 1)"
    from c2 have pos: "0 < ?c - 1" by simp
    then have b1: "1 \<le> ?b" by (auto simp: bitlen_alt_def)
    from bitlen_bounds [OF pos] have lo: "2 ^ nat (?b - 1) \<le> ?c - 1" and hi: "?c - 1 < 2 ^ nat ?b"
      by simp_all
    have e: "binary_exponent a = - ?b" using False by (simp add: binary_exponent_def)
    have "1 / a \<le> real_of_int ?c" by simp
    also have "?c \<le> 2 ^ nat ?b" using hi by simp
    then have "real_of_int ?c \<le> real_of_int (2 ^ nat ?b)" by linarith
    finally have "1 / a \<le> 2 ^ nat ?b" by simp
    then have "1 \<le> a * 2 ^ nat ?b" using assms by (simp add: field_simps)
    then have "1 / 2 ^ nat ?b \<le> a" by (simp add: field_simps)
    then have 1: "2 powi (- ?b) \<le> a"
      using b1 by (simp add: power_int_def field_simps)
    have "real_of_int (2 ^ nat (?b - 1)) \<le> real_of_int (?c - 1)" using lo by linarith
    moreover have "real_of_int (?c - 1) < 1 / a" by linarith
    ultimately have "2 ^ nat (?b - 1) < 1 / a" by simp
    then have "a * 2 ^ nat (?b - 1) < 1" using assms by (simp add: field_simps)
    then have "a < 1 / 2 ^ nat (?b - 1)" by (simp add: field_simps)
    moreover have "2 powi (- ?b + 1) = (1::real) / 2 ^ nat (?b - 1)"
    proof (cases "?b = 1")
      case True
      then show ?thesis by simp
    next
      case False
      with b1 have "- ?b + 1 < 0" "nat (- (- ?b + 1)) = nat (?b - 1)" by simp_all
      then show ?thesis by (simp add: power_int_def field_simps)
    qed
    ultimately have 2: "a < 2 powi (- ?b + 1)" by simp
    from 1 2 e show ?thesis by simp
  qed
  then show "2 powi binary_exponent a \<le> a" "a < 2 powi (binary_exponent a + 1)" by simp_all
qed

lemma binary_exponent_eqI:
  assumes "2 powi k \<le> a" "a < 2 powi (k + 1)"
  shows "binary_exponent a = k"
proof -
  have pos: "0 < a" using assms(1) by (rule less_le_trans [rotated]) simp
  let ?e = "binary_exponent a"
  note br = binary_exponent_bracket [OF pos]
  have "\<not> ?e < k"
  proof
    assume "?e < k"
    then have "(2::real) powi (?e + 1) \<le> 2 powi k" by (intro power_int_increasing) simp_all
    with br(2) assms(1) show False by linarith
  qed
  moreover have "\<not> k < ?e"
  proof
    assume "k < ?e"
    then have "(2::real) powi (k + 1) \<le> 2 powi ?e" by (intro power_int_increasing) simp_all
    with br(1) assms(2) show False by linarith
  qed
  ultimately show ?thesis by simp
qed

lemma binary_exponent_mono:
  assumes "0 < x" "x \<le> y"
  shows "binary_exponent x \<le> binary_exponent y"
proof (rule ccontr)
  assume "\<not> ?thesis"
  then have "binary_exponent y + 1 \<le> binary_exponent x" by simp
  then have "(2::real) powi (binary_exponent y + 1) \<le> 2 powi binary_exponent x"
    by (intro power_int_increasing) simp_all
  moreover from assms have "0 < y" by simp
  note binary_exponent_bracket [OF assms(1)] binary_exponent_bracket [OF this]
  ultimately show False using assms(2) by linarith
qed

lemma round_half_even_bounds:
  "\<lfloor>y\<rfloor> \<le> round_half_even y" "round_half_even y \<le> \<lfloor>y\<rfloor> + 1"
  by (simp_all add: round_half_even_def Let_def)

lemma round_half_even_error: "\<bar>real_of_int (round_half_even y) - y\<bar> \<le> 1 / 2"
  unfolding round_half_even_def Let_def by (auto split: if_splits)

lemma round_half_even_int [simp]: "round_half_even (real_of_int k) = k"
  by (simp add: round_half_even_def)

lemma round_half_even_power2 [simp]: "round_half_even (2 ^ n) = 2 ^ n"
  using round_half_even_int [of "2 ^ n"] by simp

lemma round_half_even_numeral [simp]: "round_half_even (numeral k) = numeral k"
  using round_half_even_int [of "numeral k"] by simp

lemma round_half_even_mono:
  assumes "x \<le> y"
  shows "round_half_even x \<le> round_half_even y"
proof (cases "\<lfloor>x\<rfloor> = \<lfloor>y\<rfloor>")
  case True
  with assms show ?thesis
    unfolding round_half_even_def Let_def by (auto split: if_splits)
next
  case False
  from assms have "\<lfloor>x\<rfloor> \<le> \<lfloor>y\<rfloor>" by (rule floor_mono)
  with False have "\<lfloor>x\<rfloor> + 1 \<le> \<lfloor>y\<rfloor>" by simp
  with round_half_even_bounds(2) [of x] round_half_even_bounds(1) [of y]
  show ?thesis by linarith
qed

lemma powi_quotient_int:
  assumes "b \<le> a"
  shows "(2::real) powi a / 2 powi b = real_of_int (2 ^ nat (a - b))"
proof -
  have "(2::real) powi a / 2 powi b = 2 powi (a - b)"
    by (simp add: power_int_diff)
  also have "\<dots> = 2 ^ nat (a - b)"
    using assms by (simp add: power_int_def)
  finally show ?thesis by simp
qed

lemma ulp_exponent_mono:
  assumes "0 < x" "x \<le> y"
  shows "ulp_exponent x \<le> ulp_exponent y"
  using binary_exponent_mono [OF assms] by (simp add: ulp_exponent_def)

lemma unclamped_mono:
  assumes "0 < x" "x \<le> y"
  shows "real_of_int (round_half_even (x / 2 powi ulp_exponent x)) * 2 powi ulp_exponent x
       \<le> real_of_int (round_half_even (y / 2 powi ulp_exponent y)) * 2 powi ulp_exponent y"
proof -
  let ?qx = "ulp_exponent x" and ?qy = "ulp_exponent y"
  let ?ex = "binary_exponent x" and ?ey = "binary_exponent y"
  from assms have ypos: "0 < y" by simp
  have upos: "0 < (2::real) powi q" for q by simp
  from ulp_exponent_mono [OF assms] have q: "?qx \<le> ?qy" .
  show ?thesis
  proof (cases "?qx = ?qy")
    case True
    have "x / 2 powi ?qy \<le> y / 2 powi ?qy"
      using assms(2) by (simp add: divide_right_mono)
    then have "round_half_even (x / 2 powi ?qy) \<le> round_half_even (y / 2 powi ?qy)"
      by (rule round_half_even_mono)
    then show ?thesis using True by (simp add: mult_right_mono)
  next
    case False
    with q have lt: "?qx < ?qy" by simp
    then have qy: "?qy = ?ey - 52" unfolding ulp_exponent_def by linarith
    have "?ex - 52 \<le> ?qx" by (simp add: ulp_exponent_def)
    with lt qy have e: "?ex + 1 \<le> ?ey" by simp
    let ?P = "(2::real) powi ?ey"
    note bx = binary_exponent_bracket [OF assms(1)] and bry = binary_exponent_bracket [OF ypos]
    have "(2::real) powi (?ex + 1) \<le> ?P" using e by (intro power_int_increasing) simp_all
    with bx(2) have xP: "x < ?P" by linarith
    \<comment> \<open>the rounded x stays at or below the power of two\<close>
    have d: "0 \<le> ?ey - ?qx" using lt qy by simp
    have Pq: "?P / 2 powi ?qx = real_of_int (2 ^ nat (?ey - ?qx))"
      using d by (intro powi_quotient_int) simp
    have "x / 2 powi ?qx \<le> ?P / 2 powi ?qx"
      using xP by (simp add: divide_right_mono)
    then have "round_half_even (x / 2 powi ?qx) \<le> round_half_even (?P / 2 powi ?qx)"
      by (rule round_half_even_mono)
    then have "real_of_int (round_half_even (x / 2 powi ?qx)) \<le> ?P / 2 powi ?qx"
      unfolding Pq by simp
    then have 1: "real_of_int (round_half_even (x / 2 powi ?qx)) * 2 powi ?qx \<le> ?P"
      by (simp add: field_simps)
    \<comment> \<open>the rounded y stays at or above it\<close>
    have Py: "?P / 2 powi ?qy = real_of_int (2 ^ 52)"
      using powi_quotient_int [of ?qy ?ey] by (simp add: qy)
    have "?P / 2 powi ?qy \<le> y / 2 powi ?qy"
      using bry(1) by (simp add: divide_right_mono)
    then have "round_half_even (?P / 2 powi ?qy) \<le> round_half_even (y / 2 powi ?qy)"
      by (rule round_half_even_mono)
    then have "?P / 2 powi ?qy \<le> real_of_int (round_half_even (y / 2 powi ?qy))"
      unfolding Py by simp
    then have 2: "?P \<le> real_of_int (round_half_even (y / 2 powi ?qy)) * 2 powi ?qy"
      by (simp add: field_simps)
    from 1 2 show ?thesis by linarith
  qed
qed

lemma round_magnitude_mono:
  assumes "0 < x" "x \<le> y"
  shows "round_magnitude x \<le> round_magnitude y"
  using unclamped_mono [OF assms] by (simp add: round_magnitude_def Let_def)

lemma round_magnitude_nonneg: "0 < a \<Longrightarrow> 0 \<le> round_magnitude a"
proof -
  assume a: "0 < a"
  have "0 \<le> a / 2 powi ulp_exponent a" using a by simp
  then have "0 \<le> \<lfloor>a / 2 powi ulp_exponent a\<rfloor>" by simp
  with round_half_even_bounds(1) [of "a / 2 powi ulp_exponent a"]
  have "0 \<le> round_half_even (a / 2 powi ulp_exponent a)" by linarith
  then show ?thesis by (simp add: round_magnitude_def Let_def inf_double_def)
qed

lemma to_double_mono:
  assumes "x \<le> y"
  shows "to_double x \<le> to_double y"
proof -
  consider "x = 0" | "y = 0" | "x < 0" "0 < y" | "0 < x" | "y < 0"
    using assms by linarith
  then show ?thesis
  proof cases
    case 1
    with assms show ?thesis
      by (cases "y = 0") (simp_all add: to_double_def round_magnitude_nonneg)
  next
    case 2
    with assms show ?thesis
      by (cases "x = 0") (simp_all add: to_double_def round_magnitude_nonneg)
  next
    case 3
    then have "to_double x \<le> 0" "0 \<le> to_double y"
      by (simp_all add: to_double_def round_magnitude_nonneg)
    then show ?thesis by linarith
  next
    case 4
    with assms have "0 < y" by simp
    with 4 round_magnitude_mono [OF 4 assms] show ?thesis
      by (simp add: to_double_def)
  next
    case 5
    with assms have "x < 0" by simp
    from 5 assms have "0 < - y" "- y \<le> - x" by simp_all
    from round_magnitude_mono [OF this] 5 \<open>x < 0\<close> show ?thesis
      by (simp add: to_double_def)
  qed
qed

lemma unclamped_fixed:
  assumes k: "0 < k" "k < 2 ^ 53" and q: "- 1074 \<le> q"
  defines "x \<equiv> real_of_int k * 2 powi q"
  shows "real_of_int (round_half_even (x / 2 powi ulp_exponent x)) * 2 powi ulp_exponent x = x"
proof -
  have xpos: "0 < x" using k(1) by (simp add: x_def)
  let ?e = "binary_exponent x" and ?u = "ulp_exponent x"
  have "real_of_int k < real_of_int (2 ^ 53)" using k(2) by (simp only: of_int_less_iff)
  then have "real_of_int k < 2 ^ 53" by simp
  then have "x < 2 ^ 53 * 2 powi q" by (simp add: x_def)
  also have "\<dots> = 2 powi (53 + q)" by (simp add: power_int_add)
  finally have xlt: "x < 2 powi (53 + q)" .
  have "\<not> 53 + q \<le> ?e"
  proof
    assume "53 + q \<le> ?e"
    then have "(2::real) powi (53 + q) \<le> 2 powi ?e" by (intro power_int_increasing) simp_all
    with binary_exponent_bracket(1) [OF xpos] xlt show False by linarith
  qed
  then have uq: "?u \<le> q" using q by (simp add: ulp_exponent_def)
  have "x / 2 powi ?u = real_of_int k * (2 powi q / 2 powi ?u)" by (simp add: x_def)
  also have "\<dots> = real_of_int (k * 2 ^ nat (q - ?u))"
    by (simp add: powi_quotient_int [OF uq])
  finally have "round_half_even (x / 2 powi ?u) = k * 2 ^ nat (q - ?u)"
    by (simp only: round_half_even_int)
  then have "real_of_int (round_half_even (x / 2 powi ?u)) * 2 powi ?u
      = real_of_int k * (real_of_int (2 ^ nat (q - ?u)) * 2 powi ?u)" by simp
  also have "real_of_int (2 ^ nat (q - ?u)) * 2 powi ?u = 2 powi q"
    using powi_quotient_int [OF uq] by (simp add: field_simps)
  finally show ?thesis by (simp add: x_def)
qed

lemma round_magnitude_fixed:
  assumes "0 < k" "k \<le> 2 ^ 53" "- 1074 \<le> q" "real_of_int k * 2 powi q < inf_double"
  shows "round_magnitude (real_of_int k * 2 powi q) = real_of_int k * 2 powi q"
proof (cases "k = 2 ^ 53")
  case False
  with assms(2) have "k < 2 ^ 53" by simp
  from unclamped_fixed [OF assms(1) this assms(3)] assms(4) show ?thesis
    by (simp add: round_magnitude_def Let_def)
next
  case True
  have "(2::real) powi (q + 1) = 2 powi q * 2" by (simp add: power_int_add)
  then have eq: "real_of_int k * 2 powi q = real_of_int (2 ^ 52) * 2 powi (q + 1)"
    by (simp add: True)
  have "(0::int) < 2 ^ 52" "(2::int) ^ 52 < 2 ^ 53" "- 1074 \<le> q + 1"
    using assms(3) by simp_all
  from unclamped_fixed [OF this] assms(4) show ?thesis
    unfolding eq by (simp add: round_magnitude_def Let_def)
qed

lemma unclamped_form:
  assumes "0 < a"
  shows "0 \<le> round_half_even (a / 2 powi ulp_exponent a)"
    "round_half_even (a / 2 powi ulp_exponent a) \<le> 2 ^ 53"
proof -
  let ?e = "binary_exponent a" and ?u = "ulp_exponent a"
  have "0 \<le> \<lfloor>a / 2 powi ?u\<rfloor>" using assms by simp
  with round_half_even_bounds(1) [of "a / 2 powi ?u"]
  show "0 \<le> round_half_even (a / 2 powi ?u)" by linarith
  have u: "?e - 52 \<le> ?u" by (simp add: ulp_exponent_def)
  have "a / 2 powi ?u \<le> 2 powi (?e + 1) / 2 powi ?u"
    using binary_exponent_bracket(2) [OF assms] by (simp add: divide_right_mono)
  also have "\<dots> = 2 powi (?e + 1 - ?u)" by (simp add: power_int_diff)
  also have "\<dots> \<le> 2 powi 53" using u by (intro power_int_increasing) simp_all
  finally have "a / 2 powi ?u \<le> 2 ^ 53" by simp
  then have "round_half_even (a / 2 powi ?u) \<le> round_half_even (2 ^ 53)"
    by (rule round_half_even_mono)
  then show "round_half_even (a / 2 powi ?u) \<le> 2 ^ 53" by simp
qed

lemma binary_exponent_inf: "binary_exponent inf_double = 1024"
  by (rule binary_exponent_eqI) (simp_all add: inf_double_def)

lemma round_magnitude_overflow:
  assumes "inf_double \<le> a"
  shows "round_magnitude a = inf_double"
proof -
  have ipos: "0 < inf_double" by (simp add: inf_double_def)
  with assms have apos: "0 < a" by linarith
  let ?e = "binary_exponent a" and ?u = "ulp_exponent a"
  from binary_exponent_mono [OF ipos assms] have e: "1024 \<le> ?e"
    by (simp add: binary_exponent_inf)
  then have u: "?u = ?e - 52" by (simp add: ulp_exponent_def)
  have "2 powi ?e / 2 powi ?u = real_of_int (2 ^ 52)"
    using powi_quotient_int [of ?u ?e] by (simp add: u)
  moreover have "2 powi ?e / 2 powi ?u \<le> a / 2 powi ?u"
    using binary_exponent_bracket(1) [OF apos] by (simp add: divide_right_mono)
  ultimately have "round_half_even (2 ^ 52) \<le> round_half_even (a / 2 powi ?u)"
    by (intro round_half_even_mono) simp
  then have "2 ^ 52 \<le> real_of_int (round_half_even (a / 2 powi ?u))" by simp
  then have "2 ^ 52 * 2 powi ?u \<le> real_of_int (round_half_even (a / 2 powi ?u)) * 2 powi ?u"
    by (simp add: mult_right_mono)
  moreover have "(2::real) ^ 52 * 2 powi ?u = 2 powi ?e"
    using powi_quotient_int [of ?u ?e] by (simp add: u field_simps)
  moreover have "(2::real) powi 1024 \<le> 2 powi ?e"
    using e by (intro power_int_increasing) simp_all
  moreover have "inf_double = 2 powi 1024" by (simp add: inf_double_def)
  ultimately have "inf_double \<le> real_of_int (round_half_even (a / 2 powi ?u)) * 2 powi ?u"
    by linarith
  then show ?thesis by (simp add: round_magnitude_def Let_def)
qed

lemma round_magnitude_idem:
  assumes "0 < a"
  shows "round_magnitude (round_magnitude a) = round_magnitude a \<or> round_magnitude a = 0"
proof -
  let ?u = "ulp_exponent a"
  let ?k = "round_half_even (a / 2 powi ?u)"
  let ?r = "real_of_int ?k * 2 powi ?u"
  note f = unclamped_form [OF assms]
  show ?thesis
  proof (cases "inf_double \<le> ?r")
    case True
    then have "round_magnitude a = inf_double" by (simp add: round_magnitude_def Let_def)
    then show ?thesis by (simp add: round_magnitude_overflow)
  next
    case False
    then have r: "round_magnitude a = ?r" by (simp add: round_magnitude_def Let_def)
    show ?thesis
    proof (cases "?k = 0")
      case True
      then show ?thesis by (simp add: r)
    next
      case False
      with f(1) have "0 < ?k" by simp
      moreover have "- 1074 \<le> ?u" by (simp add: ulp_exponent_def)
      moreover have "?r < inf_double" using \<open>\<not> inf_double \<le> ?r\<close> by simp
      ultimately have "round_magnitude ?r = ?r"
        using f(2) by (intro round_magnitude_fixed)
      then show ?thesis by (simp add: r)
    qed
  qed
qed

lemma to_double_minus: "to_double (- x) = - to_double x"
  by (simp add: to_double_def sgn_minus)

lemma to_double_pos: "0 < x \<Longrightarrow> to_double x = round_magnitude x"
  by (simp add: to_double_def)

lemma to_double_idem_nonneg:
  assumes "0 \<le> x"
  shows "to_double (to_double x) = to_double x"
proof (cases "x = 0")
  case True
  then show ?thesis by (simp add: to_double_def)
next
  case False
  with assms have x: "0 < x" by simp
  from round_magnitude_idem [OF x] show ?thesis
  proof
    assume "round_magnitude x = 0"
    then show ?thesis using x by (simp add: to_double_def)
  next
    assume i: "round_magnitude (round_magnitude x) = round_magnitude x"
    show ?thesis
    proof (cases "round_magnitude x = 0")
      case True
      then show ?thesis using x by (simp add: to_double_def)
    next
      case False
      with round_magnitude_nonneg [OF x] have "0 < round_magnitude x" by simp
      with i x show ?thesis by (simp add: to_double_pos)
    qed
  qed
qed

lemma to_double_idem: "to_double (to_double x) = to_double x"
proof (cases "0 \<le> x")
  case True
  then show ?thesis by (rule to_double_idem_nonneg)
next
  case False
  then have "0 \<le> - x" by simp
  from to_double_idem_nonneg [OF this] show ?thesis
    by (simp add: to_double_minus)
qed

lemma to_double_power2:
  assumes "n \<le> 1023"
  shows "to_double (2 ^ n) = 2 ^ n"
proof -
  have "(2::real) ^ n \<le> 2 ^ 1023" using assms by (intro power_increasing) simp_all
  then have lt: "real_of_int 1 * 2 powi int n < inf_double" by (simp add: inf_double_def)
  from round_magnitude_fixed [OF _ _ _ lt] show ?thesis
    by (simp add: to_double_pos)
qed

lemma to_double_rel_error:
  assumes "2 powi (- 1022) \<le> x" "to_double x < inf_double"
  shows "\<bar>to_double x - x\<bar> \<le> x / 2 ^ 53"
proof -
  have "(0::real) < 2 powi (- 1022)" by simp
  with assms(1) have xpos: "0 < x" by linarith
  let ?e = "binary_exponent x" and ?u = "ulp_exponent x"
  let ?k = "round_half_even (x / 2 powi ?u)"
  have "binary_exponent (2 powi (- 1022)) \<le> ?e"
    using assms(1) by (intro binary_exponent_mono) simp_all
  moreover have "binary_exponent (2 powi (- 1022)) = - 1022"
    by (rule binary_exponent_eqI) simp_all
  ultimately have u: "?u = ?e - 52" by (simp add: ulp_exponent_def)
  from assms(2) xpos have r: "to_double x = real_of_int ?k * 2 powi ?u"
    by (simp add: to_double_pos round_magnitude_def Let_def split: if_splits)
  have "real_of_int ?k * 2 powi ?u - x = (real_of_int ?k - x / 2 powi ?u) * 2 powi ?u"
    by (simp add: left_diff_distrib)
  then have "\<bar>real_of_int ?k * 2 powi ?u - x\<bar> = \<bar>real_of_int ?k - x / 2 powi ?u\<bar> * 2 powi ?u"
    by (simp only: abs_mult) simp
  also have "\<dots> \<le> 1 / 2 * 2 powi ?u"
    by (intro mult_right_mono round_half_even_error) simp
  also have "1 / 2 * 2 powi ?u = (2::real) powi ?e / 2 ^ 53"
    using powi_quotient_int [of ?u ?e] by (simp add: u field_simps)
  also have "\<dots> \<le> x / 2 ^ 53"
    using binary_exponent_bracket(1) [OF xpos] by (simp add: divide_right_mono)
  finally show ?thesis by (simp add: r)
qed

lemma to_double_eval_bounded:
  assumes "2 powi e \<le> x" "x < 2 powi (e + 1)" "- 1022 \<le> e"
    "real_of_int (round_half_even (x / 2 powi (e - 52))) * 2 powi (e - 52) < inf_double"
  shows "to_double x = real_of_int (round_half_even (x / 2 powi (e - 52))) * 2 powi (e - 52)"
proof -
  have "(0::real) < 2 powi e" by simp
  with assms(1) have xpos: "0 < x" by linarith
  have be: "binary_exponent x = e" using assms(1,2) by (rule binary_exponent_eqI)
  have u: "ulp_exponent x = e - 52" using assms(3) by (simp add: ulp_exponent_def be)
  show ?thesis using xpos assms(4) by (simp add: to_double_pos round_magnitude_def Let_def u)
qed

lemma to_double_eval:
  assumes "2 powi e \<le> x" "x < 2 powi (e + 1)" "- 1022 \<le> e" "e \<le> 1022"
  shows "to_double x = real_of_int (round_half_even (x / 2 powi (e - 52))) * 2 powi (e - 52)"
proof -
  have "(0::real) < 2 powi e" by simp
  with assms(1) have xpos: "0 < x" by linarith
  have be: "binary_exponent x = e" using assms(1,2) by (rule binary_exponent_eqI)
  have u: "ulp_exponent x = e - 52" using assms(3) by (simp add: ulp_exponent_def be)
  let ?k = "round_half_even (x / 2 powi (e - 52))"
  from unclamped_form(2) [OF xpos] have "real_of_int ?k \<le> real_of_int (2 ^ 53)"
    unfolding u by (simp only: of_int_le_iff)
  then have "real_of_int ?k * 2 powi (e - 52) \<le> 2 ^ 53 * 2 powi (e - 52)"
    by (simp add: mult_right_mono)
  also have "(2::real) ^ 53 * 2 powi (e - 52) = 2 powi (e + 1)"
    using powi_quotient_int [of "e - 52" "e + 1"] by (simp add: field_simps)
  also have "\<dots> \<le> 2 powi 1023" using assms(4) by (intro power_int_increasing) simp_all
  also have "\<dots> < inf_double" by (simp add: inf_double_def)
  finally show ?thesis by (rule to_double_eval_bounded [OF assms(1-3)])
qed

subsection \<open>The float operations of the program\<close>

lemma phi_global_value: "phi_global = 6967158695534705 / 9007199254740992"
  unfolding phi_global_def
  by (rule trans [OF to_double_eval [where e = "- 1"]]) (simp_all add: round_half_even_def Let_def)

lemma phi_global_bounds: "1 / 2 \<le> phi_global" "phi_global \<le> 1" "0 < phi_global"
  by (simp_all add: phi_global_value)

lemma to_double_0: "to_double 0 = 0"
  by (simp add: to_double_def)

lemma to_double_1: "to_double 1 = 1"
  using to_double_power2 [of 0] by simp

lemma to_double_nonneg: "0 \<le> x \<Longrightarrow> 0 \<le> to_double x"
  using to_double_mono [of 0 x] by (simp add: to_double_0)

lemma not_is_inf: "0 \<le> x \<Longrightarrow> x < inf_double \<Longrightarrow> \<not> is_inf x"
  by (simp add: is_inf_def)

lemma power2_below_inf: "r < 1024 \<Longrightarrow> (2::real) ^ r < inf_double"
  unfolding inf_double_def by (rule power_strict_increasing) simp_all

lemma py_float_power2: "r < 1024 \<Longrightarrow> py_float (2 ^ r) = Inr (2 ^ r)"
  using power2_below_inf [of r]
  by (simp add: py_float_def to_double_power2 not_is_inf)

lemma py_float_power2_overflow:
  assumes "1024 \<le> r"
  shows "py_float (2 ^ r) = Inl OverflowError"
proof -
  have "(2::real) ^ 1024 \<le> 2 ^ r" using assms by (intro power_increasing) simp_all
  then have i: "inf_double \<le> 2 ^ r" by (simp only: inf_double_def)
  have "(0::real) < 2 ^ r" by simp
  then have "to_double (2 ^ r) = round_magnitude (2 ^ r)" by (rule to_double_pos)
  with round_magnitude_overflow [OF i] have "to_double (2 ^ r) = inf_double" by simp
  then show ?thesis by (simp add: py_float_def is_inf_def inf_double_def)
qed

lemma float_div_power2: "r < 1024 \<Longrightarrow> float_div (2 ^ r) p = to_double (2 ^ r / p)"
  using power2_below_inf [of r] by (simp add: float_div_def not_is_inf)

lemma int_div_float_power2:
  "r < 1024 \<Longrightarrow> p \<noteq> 0 \<Longrightarrow> int_div_float (2 ^ r) p = Inr (float_div (2 ^ r) p)"
  by (simp add: int_div_float_def py_float_power2)

lemma py_int_finite: "0 \<le> x \<Longrightarrow> x < inf_double \<Longrightarrow> py_int x = Inr \<lfloor>x\<rfloor>"
  by (simp add: py_int_def not_is_inf)

lemma float_add_zero: "\<not> is_inf x \<Longrightarrow> to_double x = x \<Longrightarrow> float_add 0 x = x"
  by (simp add: float_add_def is_inf_def inf_double_def)

lemma float_div_one: "\<not> is_inf x \<Longrightarrow> to_double x = x \<Longrightarrow> float_div x (to_double 1) = x"
  by (simp add: float_div_def to_double_1)

lemma to_double_saturated: "to_double (2 ^ 200 + 2 ^ 128) = 2 ^ 200"
  by (rule trans [OF to_double_eval [where e = 200]]) (simp_all add: round_half_even_def Let_def)

lemma corrected_value_bounds:
  assumes "r < 128"
  shows "1 \<le> float_div (2 ^ r) phi_global" "float_div (2 ^ r) phi_global \<le> 2 ^ 128"
    "to_double (float_div (2 ^ r) phi_global) = float_div (2 ^ r) phi_global"
proof -
  from assms have r: "r < 1024" by simp
  note fd = float_div_power2 [OF r, of phi_global]
  have p: "0 < phi_global" "phi_global \<le> 1" "1 / 2 \<le> phi_global"
    by (rule phi_global_bounds)+
  have "(1::real) \<le> 2 ^ r" by simp
  also have "\<dots> \<le> 2 ^ r / phi_global" using p(1,2) by (simp add: pos_le_divide_eq mult_left_le)
  finally have "to_double 1 \<le> to_double (2 ^ r / phi_global)" by (rule to_double_mono)
  then show "1 \<le> float_div (2 ^ r) phi_global" by (simp add: fd to_double_1)
  have "(2::real) ^ r \<le> 2 ^ 127" using assms by (intro power_increasing) simp_all
  then have "(2::real) ^ r \<le> 2 ^ 128 * phi_global" using p(3) by simp
  then have "2 ^ r / phi_global \<le> 2 ^ 128" using p(1) by (simp add: pos_divide_le_eq)
  then have "to_double (2 ^ r / phi_global) \<le> to_double (2 ^ 128)" by (rule to_double_mono)
  moreover have "to_double (2 ^ 128) = 2 ^ 128" by (rule to_double_power2) simp
  ultimately show "float_div (2 ^ r) phi_global \<le> 2 ^ 128" by (simp only: fd)
  show "to_double (float_div (2 ^ r) phi_global) = float_div (2 ^ r) phi_global"
    by (simp add: fd to_double_idem)
qed

lemma float_add_finite:
  assumes "0 \<le> a" "a \<le> 2 ^ 200" "0 \<le> x" "x \<le> 2 ^ 128"
  shows "float_add a x = to_double (a + x)" "float_add a x \<le> 2 ^ 200"
proof -
  have "a < inf_double" "x < inf_double" using assms(2,4) by (simp_all add: inf_double_def)
  with assms(1,3) show eq: "float_add a x = to_double (a + x)"
    by (simp add: float_add_def not_is_inf)
  have "a + x \<le> 2 ^ 200 + 2 ^ 128" using assms(2,4) by simp
  then have "to_double (a + x) \<le> to_double (2 ^ 200 + 2 ^ 128)" by (rule to_double_mono)
  then show "float_add a x \<le> 2 ^ 200" by (simp only: eq to_double_saturated)
qed

lemma float_add_error:
  assumes "1 \<le> a" "a \<le> 2 ^ 200" "1 \<le> x" "x \<le> 2 ^ 128"
  shows "1 \<le> float_add a x" "float_add a x \<le> 2 ^ 200"
    "(a + x) * (1 - 1 / 2 ^ 53) \<le> float_add a x" "float_add a x \<le> (a + x) * (1 + 1 / 2 ^ 53)"
proof -
  from assms have nn: "0 \<le> a" "0 \<le> x" by simp_all
  note fa = float_add_finite [OF nn(1) assms(2) nn(2) assms(4)]
  show le: "float_add a x \<le> 2 ^ 200" by (rule fa(2))
  have "1 \<le> a + x" using assms(1,3) by simp
  then have "to_double 1 \<le> to_double (a + x)" by (rule to_double_mono)
  then show "1 \<le> float_add a x" by (simp add: fa(1) to_double_1)
  have "(2::real) powi (- 1022) \<le> 1" by (simp add: power_int_minus inverse_le_1_iff)
  with \<open>1 \<le> a + x\<close> have lo: "2 powi (- 1022) \<le> a + x" by linarith
  have "to_double (a + x) < inf_double" using le by (simp add: fa(1) inf_double_def)
  from to_double_rel_error [OF lo this]
  have err: "\<bar>float_add a x - (a + x)\<bar> \<le> (a + x) / 2 ^ 53" by (simp only: fa(1))
  have l: "(a + x) * (1 - 1 / 2 ^ 53) = (a + x) - (a + x) / 2 ^ 53"
    and h: "(a + x) * (1 + 1 / 2 ^ 53) = (a + x) + (a + x) / 2 ^ 53"
    by (simp_all only: right_diff_distrib distrib_left mult_1_right times_divide_eq_right)
  show "(a + x) * (1 - 1 / 2 ^ 53) \<le> float_add a x"
    unfolding l using err by linarith
  show "float_add a x \<le> (a + x) * (1 + 1 / 2 ^ 53)"
    unfolding h using err by linarith
qed

lemma foldl_float_add_bounds:
  assumes "\<forall>x\<in>set xs. 1 \<le> x \<and> x \<le> 2 ^ 128"
    "1 \<le> a" "a \<le> 2 ^ 200" "0 \<le> A"
    "A * (1 - 1 / 2 ^ 53) ^ k \<le> a" "a \<le> A * (1 + 1 / 2 ^ 53) ^ k"
  shows "1 \<le> foldl float_add a xs \<and> foldl float_add a xs \<le> 2 ^ 200 \<and>
         (A + sum_list xs) * (1 - 1 / 2 ^ 53) ^ (k + length xs) \<le> foldl float_add a xs \<and>
         foldl float_add a xs \<le> (A + sum_list xs) * (1 + 1 / 2 ^ 53) ^ (k + length xs)"
  using assms
proof (induction xs arbitrary: a A k)
  case Nil
  then show ?case by simp
next
  case (Cons x xs)
  let ?d = "1 - 1 / 2 ^ 53 :: real" and ?u = "1 + 1 / 2 ^ 53 :: real"
  from Cons.prems(1) have x: "1 \<le> x" "x \<le> 2 ^ 128" by simp_all
  note e = float_add_error [OF Cons.prems(2,3) x]
  have d: "0 \<le> ?d" "?d \<le> 1" and u: "1 \<le> ?u" by simp_all
  have dk: "?d ^ k \<le> 1" using d by (rule power_le_one)
  have uk: "1 \<le> ?u ^ k" using u by (rule one_le_power)
  have x0: "0 \<le> x" using x(1) by simp
  have "x * ?d ^ k \<le> x" using dk x0 by (simp add: mult_left_le)
  with Cons.prems(5) have "(A + x) * ?d ^ k \<le> a + x" by (simp add: algebra_simps)
  then have "(A + x) * ?d ^ k * ?d \<le> (a + x) * ?d" using d(1) by (rule mult_right_mono)
  with e(3) have lo: "(A + x) * ?d ^ Suc k \<le> float_add a x" by (simp add: mult.assoc)
  have "x \<le> x * ?u ^ k" using uk x0 by (simp add: mult_le_cancel_left1)
  with Cons.prems(6) have "a + x \<le> (A + x) * ?u ^ k" by (simp add: algebra_simps)
  then have "(a + x) * ?u \<le> (A + x) * ?u ^ k * ?u" using u by (intro mult_right_mono) simp_all
  with e(4) have hi: "float_add a x \<le> (A + x) * ?u ^ Suc k" by (simp add: mult.assoc)
  have A: "0 \<le> A + x" using Cons.prems(4) x0 by simp
  from Cons.prems(1) have rest: "\<forall>y\<in>set xs. 1 \<le> y \<and> y \<le> 2 ^ 128" by simp
  from Cons.IH [OF rest e(1) e(2) A lo hi] show ?case
    by (simp add: add.assoc)
qed

lemma py_sum_bounds:
  assumes "xs \<noteq> []" "\<forall>x\<in>set xs. 1 \<le> x \<and> x \<le> 2 ^ 128 \<and> to_double x = x"
  shows "1 \<le> py_sum xs" "py_sum xs \<le> 2 ^ 200"
    "sum_list xs * (1 - 1 / 2 ^ 53) ^ (length xs - 1) \<le> py_sum xs"
    "py_sum xs \<le> sum_list xs * (1 + 1 / 2 ^ 53) ^ (length xs - 1)"
proof -
  from assms(1) obtain x ys where xs: "xs = x # ys" by (cases xs) auto
  with assms(2) have x: "1 \<le> x" "x \<le> 2 ^ 128" "to_double x = x"
    and ys: "\<forall>y\<in>set ys. 1 \<le> y \<and> y \<le> 2 ^ 128" by simp_all
  have "x < inf_double" using x(2) by (simp add: inf_double_def)
  with x(1) have "\<not> is_inf x" by (intro not_is_inf) simp_all
  then have s: "py_sum (x # ys) = foldl float_add x ys"
    by (simp add: py_sum_def float_add_zero x(3))
  have x200: "x \<le> 2 ^ 200" using x(2) by simp
  have "0 \<le> x" using x(1) by simp
  from foldl_float_add_bounds [OF ys x(1) x200 this, of 0]
  show "1 \<le> py_sum xs" "py_sum xs \<le> 2 ^ 200"
    "sum_list xs * (1 - 1 / 2 ^ 53) ^ (length xs - 1) \<le> py_sum xs"
    "py_sum xs \<le> sum_list xs * (1 + 1 / 2 ^ 53) ^ (length xs - 1)"
    unfolding xs s by simp_all
qed

lemma to_double_length:
  assumes "0 < n" "n \<le> 2 ^ 53"
  shows "to_double (real n) = real n"
proof -
  have "real n \<le> 2 ^ 53" using assms(2) by (metis of_nat_le_iff of_nat_numeral of_nat_power)
  then have "real_of_int (int n) * 2 powi 0 < inf_double" by (simp add: inf_double_def)
  moreover have "0 < int n" "int n \<le> 2 ^ 53" using assms by simp_all
  ultimately have "round_magnitude (real_of_int (int n) * 2 powi 0) = real_of_int (int n) * 2 powi 0"
    by (intro round_magnitude_fixed) simp_all
  then show ?thesis using assms(1) by (simp add: to_double_pos)
qed

lemma to_double_length_ge: "0 < n \<Longrightarrow> 1 \<le> to_double (real n)"
  using to_double_mono [of 1 "real n"] by (simp add: to_double_1)

lemma mean_estimate_finite:
  assumes "xs \<noteq> []" "\<forall>x\<in>set xs. 1 \<le> x \<and> x \<le> 2 ^ 128 \<and> to_double x = x"
  shows "mean_estimate xs = Inr (to_double (py_sum xs / to_double (real (length xs))))"
    "0 \<le> to_double (py_sum xs / to_double (real (length xs)))"
    "to_double (py_sum xs / to_double (real (length xs))) \<le> 2 ^ 200"
proof -
  note b = py_sum_bounds(1,2) [OF assms]
  let ?n = "to_double (real (length xs))"
  have n: "1 \<le> ?n" using assms(1) by (intro to_double_length_ge) simp
  have "py_sum xs < inf_double" using b(2) by (simp add: inf_double_def)
  with b(1) have "\<not> is_inf (py_sum xs)" by (intro not_is_inf) simp_all
  then show "mean_estimate xs = Inr (to_double (py_sum xs / ?n))"
    using assms(1) by (simp add: mean_estimate_def float_div_def)
  have "0 \<le> py_sum xs / ?n" using b(1) n by simp
  then show "0 \<le> to_double (py_sum xs / ?n)" by (rule to_double_nonneg)
  have "py_sum xs / ?n \<le> py_sum xs" using b(1) n by (simp add: divide_le_eq mult_left_le)
  with b(2) have "py_sum xs / ?n \<le> 2 ^ 200" by linarith
  then have "to_double (py_sum xs / ?n) \<le> to_double (2 ^ 200)" by (rule to_double_mono)
  moreover have "to_double (2 ^ 200) = 2 ^ 200" by (rule to_double_power2) simp
  ultimately show "to_double (py_sum xs / ?n) \<le> 2 ^ 200" by (simp only:)
qed

lemma float_add_eval:
  "0 \<le> x \<Longrightarrow> x < inf_double \<Longrightarrow> 0 \<le> y \<Longrightarrow> y < inf_double \<Longrightarrow>
     float_add x y = to_double (x + y)"
  by (simp add: float_add_def not_is_inf)

lemma float_div_eval:
  "0 \<le> x \<Longrightarrow> x < inf_double \<Longrightarrow> float_div x y = to_double (x / y)"
  by (simp add: float_div_def not_is_inf)


subsection \<open>Tail length\<close>

lemma tail_length_takeWhile:
  "tail_length n = length (takeWhile (\<lambda>c. c = CHR ''0'') (rev (bin_digits n)))"
proof -
  let ?P = "\<lambda>c. c = CHR ''0''"
  let ?r = "rev (bin_digits n)"
  have "length (takeWhile ?P ?r) + length (dropWhile ?P ?r) = length ?r"
    by (metis length_append takeWhile_dropWhile_id)
  then show ?thesis
    by (simp add: tail_length_def rstrip0_def Let_def)
qed

lemma tail_length_0: "tail_length 0 = 1"
  by (simp add: tail_length_takeWhile bin_digits.simps)

lemma tail_length_1: "tail_length (Suc 0) = 0"
  by (simp add: tail_length_takeWhile bin_digits.simps)

lemma tail_length_even:
  assumes "2 \<le> n" "even n"
  shows "tail_length n = Suc (tail_length (n div 2))"
  using assms
  by (subst tail_length_takeWhile, subst bin_digits.simps)
     (simp add: tail_length_takeWhile)

lemma tail_length_odd:
  assumes "odd n"
  shows "tail_length n = 0"
proof (cases "n < 2")
  case True
  with assms have "n = Suc 0" by (cases n) auto
  then show ?thesis by (simp add: tail_length_1)
next
  case False
  with assms show ?thesis
    by (subst tail_length_takeWhile, subst bin_digits.simps) (simp add: odd_iff_mod_2_eq_one)
qed

lemma tail_length_valuation:
  "0 < n \<Longrightarrow> 2 ^ tail_length n dvd n \<and> odd (n div 2 ^ tail_length n)"
proof (induction n rule: less_induct)
  case (less n)
  show ?case
  proof (cases "even n")
    case False
    then show ?thesis by (simp add: tail_length_odd)
  next
    case True
    with less.prems have n2: "2 \<le> n" by (auto elim!: evenE)
    let ?m = "n div 2"
    have m: "0 < ?m" "?m < n" using n2 by auto
    have tl: "tail_length n = Suc (tail_length ?m)"
      using n2 True by (rule tail_length_even)
    from less.IH [OF m(2) m(1)]
    have ih: "2 ^ tail_length ?m dvd ?m" "odd (?m div 2 ^ tail_length ?m)" by auto
    have n: "n = 2 * ?m" using True by auto
    have "2 * 2 ^ tail_length ?m dvd 2 * ?m" using ih(1) by simp
    then have d: "2 ^ tail_length n dvd n" using n tl by simp
    have "n div 2 ^ tail_length n = ?m div 2 ^ tail_length ?m"
      by (simp add: tl div_mult2_eq)
    with d ih(2) show ?thesis by simp
  qed
qed

subsection \<open>Loops and indexing\<close>

lemma py_index_in_range: "0 \<le> i \<Longrightarrow> i < int n \<Longrightarrow> py_index n i = Some (nat i)"
  by (simp add: py_index_def)

lemma py_index_nat: "k < n \<Longrightarrow> py_index n (int k) = Some k"
  by (simp add: py_index_def)

lemma flat_index_bound:
  fixes g i G H :: nat
  assumes "g < G" "i < H"
  shows "g * H + i < G * H"
proof -
  have "g * H + i < Suc g * H" using assms(2) by simp
  also have "\<dots> \<le> G * H" using assms(1) by (intro mult_le_mono1) simp
  finally show ?thesis .
qed

lemma same_frame_refl: "same_frame s s"
  by (simp add: same_frame_def)

lemma same_frame_trans: "same_frame s s1 \<Longrightarrow> same_frame s1 s2 \<Longrightarrow> same_frame s s2"
  by (simp add: same_frame_def)

lemma tz_at_frame: "same_frame s s' \<Longrightarrow> tz_at hf v s' g i = tz_at hf v s g i"
  by (simp add: same_frame_def tz_at_def)

lemma update_cell_wf:
  assumes wf: "wf_multiple s"
    and g: "g < nat (num_groups s)" and i: "i < nat (hashes_per_group s)"
  shows "\<exists>s'. update_cell hf v g s i = Inr s' \<and> wf_multiple s' \<and> same_frame s s' \<and>
           (\<forall>g' i'. g' < nat (num_groups s) \<longrightarrow> i' < nat (hashes_per_group s) \<longrightarrow>
              cell s' g' i' =
                (if g' = g \<and> i' = i then max (cell s g i) (tz_at hf v s g i) else cell s g' i'))"
proof -
  let ?m = "max_tail_length_m s"
  let ?H = "nat (hashes_per_group s)"
  let ?x = "max (?m ! g ! i) (tz_at hf v s g i)"
  let ?m' = "?m[g := (?m ! g)[i := ?x]]"
  let ?s' = "s\<lparr>max_tail_length_m := ?m'\<rparr>"
  from wf have len: "length ?m = nat (num_groups s)"
    and rows: "\<forall>g<length ?m. length (?m ! g) = ?H"
    and sd: "nat (num_groups s) * ?H \<le> length (seeds s)"
    by (simp_all add: wf_multiple_def)
  have hpos: "hashes_per_group s = int ?H" using i by simp
  have flat: "int g * hashes_per_group s + int i = int (g * ?H + i)"
    by (subst hpos) simp
  have "g * ?H + i < length (seeds s)"
    using flat_index_bound [OF g i] sd by simp
  then have idx:
    "py_index (length (seeds s)) (int g * hashes_per_group s + int i) = Some (g * ?H + i)"
    unfolding flat by (rule py_index_nat)
  have gl: "g < length ?m" using g len by simp
  have il: "i < length (?m ! g)" using rows gl i by simp
  have run: "update_cell hf v g s i = Inr ?s'"
    using gl il by (simp add: update_cell_def idx tz_at_def Let_def)
  have wf': "wf_multiple ?s'"
    using len rows sd g by (auto simp: wf_multiple_def nth_list_update)
  have fr: "same_frame s ?s'" by (simp add: same_frame_def)
  have cells: "cell ?s' g' i' = (if g' = g \<and> i' = i then ?x else cell s g' i')"
    if "g' < nat (num_groups s)" "i' < ?H" for g' i'
    using that len rows g i by (auto simp: cell_def nth_list_update)
  show ?thesis
    using run wf' fr cells by (intro exI [of _ ?s']) (simp add: cell_def)
qed

lemma process_group_cells:
  assumes "wf_multiple s" "g < nat (num_groups s)" "\<forall>i\<in>set js. i < nat (hashes_per_group s)"
  shows "\<exists>s'. for_each (update_cell hf v g) s js = Inr s' \<and> wf_multiple s' \<and> same_frame s s' \<and>
           (\<forall>g' i'. g' < nat (num_groups s) \<longrightarrow> i' < nat (hashes_per_group s) \<longrightarrow>
              cell s' g' i' =
                (if g' = g \<and> i' \<in> set js then max (cell s g' i') (tz_at hf v s g' i')
                 else cell s g' i'))"
  using assms
proof (induction js arbitrary: s)
  case Nil
  then show ?case by (simp add: same_frame_refl)
next
  case (Cons j js)
  let ?G = "nat (num_groups s)" and ?H = "nat (hashes_per_group s)"
  from Cons.prems have j: "j < ?H" by simp
  from update_cell_wf [where hf = hf and v = v, OF Cons.prems(1,2) j] obtain s1 where
    s1: "update_cell hf v g s j = Inr s1" "wf_multiple s1" "same_frame s s1"
    and c1: "\<And>g' i'. g' < ?G \<Longrightarrow> i' < ?H \<Longrightarrow>
        cell s1 g' i' = (if g' = g \<and> i' = j then max (cell s g j) (tz_at hf v s g j)
                         else cell s g' i')"
    by auto
  from s1(3) have eqs: "nat (num_groups s1) = ?G" "nat (hashes_per_group s1) = ?H"
    by (simp_all add: same_frame_def)
  have p1: "g < nat (num_groups s1)" "\<forall>i\<in>set js. i < nat (hashes_per_group s1)"
    using Cons.prems eqs by simp_all
  from Cons.IH [OF s1(2) p1] obtain s2 where
    s2: "for_each (update_cell hf v g) s1 js = Inr s2" "wf_multiple s2" "same_frame s1 s2"
    and c2: "\<And>g' i'. g' < ?G \<Longrightarrow> i' < ?H \<Longrightarrow>
        cell s2 g' i' = (if g' = g \<and> i' \<in> set js then max (cell s1 g' i') (tz_at hf v s1 g' i')
                         else cell s1 g' i')"
    unfolding eqs by auto
  have run: "for_each (update_cell hf v g) s (j # js) = Inr s2"
    using s1(1) s2(1) by simp
  have fr: "same_frame s s2" using s1(3) s2(3) by (rule same_frame_trans)
  have cells: "cell s2 g' i' =
      (if g' = g \<and> i' \<in> set (j # js) then max (cell s g' i') (tz_at hf v s g' i')
       else cell s g' i')" if "g' < ?G" "i' < ?H" for g' i'
    using c1 [OF that] c2 [OF that] tz_at_frame [OF s1(3), of hf v g' i'] by auto
  show ?case
    using run s2(2) fr cells by (intro exI [of _ s2]) simp
qed

lemma multiple_process_groups_cells:
  assumes "wf_multiple s" "\<forall>g\<in>set gs. g < nat (num_groups s)"
  shows "\<exists>s'. for_each (process_group hf v) s gs = Inr s' \<and> wf_multiple s' \<and> same_frame s s' \<and>
           (\<forall>g' i'. g' < nat (num_groups s) \<longrightarrow> i' < nat (hashes_per_group s) \<longrightarrow>
              cell s' g' i' =
                (if g' \<in> set gs then max (cell s g' i') (tz_at hf v s g' i')
                 else cell s g' i'))"
  using assms
proof (induction gs arbitrary: s)
  case Nil
  then show ?case by (simp add: same_frame_refl)
next
  case (Cons g gs)
  let ?G = "nat (num_groups s)" and ?H = "nat (hashes_per_group s)"
  from Cons.prems have g: "g < ?G" by simp
  have js: "\<forall>i\<in>set [0..<?H]. i < ?H" by simp
  from process_group_cells [where hf = hf and v = v, OF Cons.prems(1) g js] obtain s1 where
    s1: "process_group hf v s g = Inr s1" "wf_multiple s1" "same_frame s s1"
    and c1: "\<And>g' i'. g' < ?G \<Longrightarrow> i' < ?H \<Longrightarrow>
        cell s1 g' i' = (if g' = g then max (cell s g' i') (tz_at hf v s g' i')
                         else cell s g' i')"
    unfolding process_group_def by auto
  from s1(3) have eqs: "nat (num_groups s1) = ?G" "nat (hashes_per_group s1) = ?H"
    by (simp_all add: same_frame_def)
  have p1: "\<forall>g\<in>set gs. g < nat (num_groups s1)"
    using Cons.prems eqs by simp
  from Cons.IH [OF s1(2) p1] obtain s2 where
    s2: "for_each (process_group hf v) s1 gs = Inr s2" "wf_multiple s2" "same_frame s1 s2"
    and c2: "\<And>g' i'. g' < ?G \<Longrightarrow> i' < ?H \<Longrightarrow>
        cell s2 g' i' = (if g' \<in> set gs then max (cell s1 g' i') (tz_at hf v s1 g' i')
                         else cell s1 g' i')"
    unfolding eqs by auto
  have run: "for_each (process_group hf v) s (g # gs) = Inr s2"
    using s1(1) s2(1) by simp
  have fr: "same_frame s s2" using s1(3) s2(3) by (rule same_frame_trans)
  have cells: "cell s2 g' i' =
      (if g' \<in> set (g # gs) then max (cell s g' i') (tz_at hf v s g' i')
       else cell s g' i')" if "g' < ?G" "i' < ?H" for g' i'
    using c1 [OF that] c2 [OF that] tz_at_frame [OF s1(3), of hf v g' i'] by auto
  show ?case
    using run s2(2) fr cells by (intro exI [of _ s2]) simp
qed

lemma multiple_process_cells:
  assumes "wf_multiple s"
  shows "\<exists>s'. multiple_process hf s v = Inr s' \<and> wf_multiple s' \<and> same_frame s s' \<and>
           (\<forall>g i. g < nat (num_groups s) \<longrightarrow> i < nat (hashes_per_group s) \<longrightarrow>
              cell s' g i = max (cell s g i) (tz_at hf v s g i))"
proof -
  have "\<forall>g\<in>set [0..<nat (num_groups s)]. g < nat (num_groups s)" by simp
  from multiple_process_groups_cells [where hf = hf and v = v, OF assms this]
  show ?thesis unfolding multiple_process_def by simp
qed

lemma py_index_Some: "py_index n i = Some k \<Longrightarrow> k < n"
  by (auto simp: py_index_def split: if_splits)

lemma for_each_append:
  "for_each body s (xs @ ys) =
     (case for_each body s xs of Inl e \<Rightarrow> Inl e | Inr s' \<Rightarrow> for_each body s' ys)"
  by (induction xs arbitrary: s) (auto split: sum.splits)

lemma set_bit_at_Inr:
  "set_bit_at bits x = Inr b \<Longrightarrow> \<exists>k. py_index (length bits) x = Some k \<and> b = bits[k := True]"
  by (auto simp: set_bit_at_def split: option.splits)

lemma set_bit_at_in_range:
  "0 \<le> x \<Longrightarrow> x < int (length bits) \<Longrightarrow> set_bit_at bits x = Inr (bits[nat x := True])"
  by (simp add: set_bit_at_def py_index_in_range)

lemma set_bits_monotone:
  "for_each set_bit_at bits hs = Inr bits' \<Longrightarrow>
     length bits' = length bits \<and> (\<forall>k<length bits. bits ! k \<longrightarrow> bits' ! k)"
proof (induction hs arbitrary: bits)
  case Nil
  then show ?case by simp
next
  case (Cons x hs)
  from Cons.prems obtain b where b: "set_bit_at bits x = Inr b"
    and rest: "for_each set_bit_at b hs = Inr bits'"
    by (auto split: sum.splits)
  from set_bit_at_Inr [OF b] obtain k where k: "b = bits[k := True]" by blast
  have keep: "bits[k := True] ! j" if "j < length bits" "bits ! j" for j
    using that by (cases "j = k") auto
  from Cons.IH [OF rest] have "length bits' = length bits"
    and "\<forall>j<length bits. bits[k := True] ! j \<longrightarrow> bits' ! j"
    by (simp_all add: k)
  with keep show ?case by blast
qed

lemma set_bits_in_range:
  "in_range (length bits) hs \<Longrightarrow>
     \<exists>bits'. for_each set_bit_at bits hs = Inr bits' \<and> length bits' = length bits \<and>
       (\<forall>x\<in>set hs. bits' ! nat x)"
proof (induction hs arbitrary: bits)
  case Nil
  then show ?case by simp
next
  case (Cons x hs)
  from Cons.prems have x: "0 \<le> x" "x < int (length bits)"
    and hs: "in_range (length (bits[nat x := True])) hs"
    by (auto simp: in_range_def)
  from Cons.IH [OF hs] obtain bits' where
    run: "for_each set_bit_at (bits[nat x := True]) hs = Inr bits'"
    and len: "length bits' = length bits" and set: "\<forall>y\<in>set hs. bits' ! nat y"
    by auto
  from set_bits_monotone [OF run] x have "bits' ! nat x"
    by (auto simp: nth_list_update)
  with run len set x show ?case
    by (simp add: set_bit_at_in_range)
qed

lemma all_bits_true:
  "in_range (length bits) hs \<Longrightarrow> \<forall>x\<in>set hs. bits ! nat x \<Longrightarrow> all_bits bits hs = Inr True"
  by (induction hs) (auto simp: in_range_def py_index_in_range)

lemma all_bits_total:
  "in_range (length bits) hs \<Longrightarrow> \<exists>b. all_bits bits hs = Inr b"
  by (induction hs) (auto simp: in_range_def py_index_in_range)

lemma bloom_hashes_in_range:
  assumes "0 < size_bf s"
  shows "\<exists>hs. bloom_hashes hfn s v = Inr hs \<and> length hs = nat (hash_count s) \<and>
           in_range (nat (size_bf s)) hs"
  using assms by (auto simp: bloom_hashes_def in_range_def)

lemma bloom_hashes_frame:
  "size_bf s' = size_bf s \<Longrightarrow> hash_count s' = hash_count s \<Longrightarrow>
     bloom_hashes hfn s' v = bloom_hashes hfn s v"
  by (simp add: bloom_hashes_def)

lemma bloom_add_frame:
  assumes "bloom_add hfn s v = Inr s'"
  shows "size_bf s' = size_bf s \<and> hash_count s' = hash_count s \<and>
         length (bit_array s') = length (bit_array s) \<and>
         (\<forall>k<length (bit_array s). bit_array s ! k \<longrightarrow> bit_array s' ! k)"
proof -
  from assms obtain hs bits where "for_each set_bit_at (bit_array s) hs = Inr bits"
    and s': "s' = s\<lparr>bit_array := bits\<rparr>"
    unfolding bloom_add_def by (auto split: sum.splits)
  from set_bits_monotone [OF this(1)] s' show ?thesis by simp
qed

lemma bloom_add_sets:
  assumes "bloom_inv s"
  shows "\<exists>s' hs. bloom_add hfn s v = Inr s' \<and> bloom_inv s' \<and>
           bloom_hashes hfn s' v = Inr hs \<and> in_range (length (bit_array s')) hs \<and>
           (\<forall>x\<in>set hs. bit_array s' ! nat x)"
proof -
  from assms have sz: "0 < size_bf s" and len: "length (bit_array s) = nat (size_bf s)"
    by (auto simp: bloom_inv_def)
  from bloom_hashes_in_range [where hfn = hfn and v = v, OF sz] obtain hs where
    hs: "bloom_hashes hfn s v = Inr hs" "in_range (nat (size_bf s)) hs" by blast
  from set_bits_in_range [of "bit_array s" hs] hs(2) len obtain bits where
    bits: "for_each set_bit_at (bit_array s) hs = Inr bits"
      "length bits = length (bit_array s)" "\<forall>x\<in>set hs. bits ! nat x"
    by auto
  let ?s' = "s\<lparr>bit_array := bits\<rparr>"
  have "bloom_add hfn s v = Inr ?s'"
    by (simp add: bloom_add_def hs(1) bits(1))
  moreover have "bloom_inv ?s'"
    using sz len bits(2) by (simp add: bloom_inv_def)
  moreover have "bloom_hashes hfn ?s' v = Inr hs"
    using hs(1) bloom_hashes_frame [of ?s' s hfn v] by simp
  moreover have "in_range (length (bit_array ?s')) hs"
    using hs(2) bits(2) len by simp
  ultimately show ?thesis using bits(3) by (intro exI [of _ ?s'] exI [of _ hs]) simp
qed

lemma bloom_add_all_frame:
  "bloom_inv s \<Longrightarrow>
     \<exists>s'. bloom_add_all hfn s vs = Inr s' \<and> bloom_inv s' \<and>
       size_bf s' = size_bf s \<and> hash_count s' = hash_count s \<and>
       length (bit_array s') = length (bit_array s) \<and>
       (\<forall>k<length (bit_array s). bit_array s ! k \<longrightarrow> bit_array s' ! k)"
proof (induction vs arbitrary: s)
  case Nil
  then show ?case by (simp add: bloom_add_all_def)
next
  case (Cons v vs)
  from bloom_add_sets [where hfn = hfn and v = v, OF Cons.prems] obtain s1 where
    s1: "bloom_add hfn s v = Inr s1" "bloom_inv s1" by blast
  from Cons.IH [OF s1(2)] obtain s2 where
    s2: "bloom_add_all hfn s1 vs = Inr s2" "bloom_inv s2"
      "size_bf s2 = size_bf s1" "hash_count s2 = hash_count s1"
      "length (bit_array s2) = length (bit_array s1)"
      "\<forall>k<length (bit_array s1). bit_array s1 ! k \<longrightarrow> bit_array s2 ! k"
    by blast
  from bloom_add_frame [OF s1(1)] have f1: "size_bf s1 = size_bf s"
    "hash_count s1 = hash_count s" "length (bit_array s1) = length (bit_array s)"
    "\<forall>k<length (bit_array s). bit_array s ! k \<longrightarrow> bit_array s1 ! k"
    by simp_all
  have run: "bloom_add_all hfn s (v # vs) = Inr s2"
    using s1(1) s2(1) by (simp add: bloom_add_all_def)
  have mono: "\<forall>k<length (bit_array s). bit_array s ! k \<longrightarrow> bit_array s2 ! k"
    using f1(3,4) s2(6) by simp
  show ?case
    using run s2(2) s2(3) s2(4) s2(5) f1(1) f1(2) f1(3) mono
    by (intro exI [of _ s2]) simp
qed

lemma bloom_init_inv: "0 < m \<Longrightarrow> \<exists>b. bloom_init m k = Inr b \<and> bloom_inv b"
  by (simp add: bloom_init_def bloom_inv_def)

subsection \<open>The Bloom filter has no false negatives\<close>

text \<open>
  \<^bold>\<open>C1\<close> (no false negatives). For a Bloom filter constructed with a positive
  bitmap size and a positive hash count, and any run of \<^verbatim>\<open>add\<close> calls in which
  the value \<open>v\<close> is added (after any values \<open>xs\<close>, followed by any further
  values \<open>ys\<close>, none when \<open>ys\<close> is empty): the constructor and every
  \<^verbatim>\<open>add\<close> return, and \<^verbatim>\<open>query\<close> of \<open>v\<close> on the final state returns
  true.
\<close>

theorem bloom_no_false_negatives:
  assumes "0 < m" "0 < k"
  shows "\<exists>b s. bloom_init m k = Inr b \<and>
           bloom_add_all hfn b (xs @ v # ys) = Inr s \<and>
           bloom_query hfn s v = Inr True"
proof -
  from bloom_init_inv [where k = k, OF assms(1)] obtain b where
    b: "bloom_init m k = Inr b" "bloom_inv b" by auto
  from bloom_add_all_frame [where hfn = hfn and vs = xs, OF b(2)] obtain s1 where
    s1: "bloom_add_all hfn b xs = Inr s1" "bloom_inv s1" by auto
  from bloom_add_sets [where hfn = hfn and v = v, OF s1(2)] obtain s2 hs where
    s2: "bloom_add hfn s1 v = Inr s2" "bloom_inv s2"
      "bloom_hashes hfn s2 v = Inr hs" "in_range (length (bit_array s2)) hs"
      "\<forall>x\<in>set hs. bit_array s2 ! nat x"
    by auto
  from bloom_add_all_frame [where hfn = hfn and vs = ys, OF s2(2)] obtain s3 where
    s3: "bloom_add_all hfn s2 ys = Inr s3"
      "size_bf s3 = size_bf s2" "hash_count s3 = hash_count s2"
      "length (bit_array s3) = length (bit_array s2)"
      "\<forall>k<length (bit_array s2). bit_array s2 ! k \<longrightarrow> bit_array s3 ! k"
    by auto
  have "for_each (bloom_add hfn) s1 (v # ys) = Inr s3"
    using s2(1) s3(1) by (simp add: bloom_add_all_def)
  with s1(1) have run: "bloom_add_all hfn b (xs @ v # ys) = Inr s3"
    by (simp add: bloom_add_all_def for_each_append del: for_each.simps)
  have hs3: "bloom_hashes hfn s3 v = Inr hs"
    using s2(3) bloom_hashes_frame [OF s3(2) s3(3), of hfn v] by simp
  have rng: "in_range (length (bit_array s3)) hs"
    using s2(4) s3(4) by simp
  have "\<forall>x\<in>set hs. bit_array s3 ! nat x"
  proof
    fix x assume x: "x \<in> set hs"
    with s2(4) have "nat x < length (bit_array s2)" by (auto simp: in_range_def)
    moreover from x s2(5) have "bit_array s2 ! nat x" by simp
    ultimately show "bit_array s3 ! nat x" using s3(5) by simp
  qed
  with rng have "all_bits (bit_array s3) hs = Inr True" by (rule all_bits_true)
  then have "bloom_query hfn s3 v = Inr True"
    by (simp add: bloom_query_def hs3)
  with b(1) run show ?thesis by auto
qed

text \<open>The theorem at an 8-bit filter with 3 hashes and the stream x, a, y, z.\<close>

theorem bloom_no_false_negatives_witness:
  "(0::int) < 8 \<and> (0::int) < 3 \<and>
   (\<exists>b s. bloom_init 8 3 = Inr b \<and>
      bloom_add_all stub_hash64 b ([''x''] @ ''a'' # [''y'', ''z'']) = Inr s \<and>
      bloom_query stub_hash64 s ''a'' = Inr True)"
proof -
  have "(0::int) < 8" "(0::int) < 3" by simp_all
  from this bloom_no_false_negatives [OF this, of stub_hash64 "[''x'']" "''a''" "[''y'', ''z'']"]
  show ?thesis by blast
qed

subsection \<open>Tail length and trailing zeros\<close>

lemma low_bits_zero:
  fixes n :: nat
  assumes "2 ^ t dvd n" "i < t"
  shows "\<not> bit n i"
proof -
  from assms(1) obtain k where n: "n = 2 ^ t * k" ..
  have "t = i + Suc (t - Suc i)" using assms(2) by simp
  then have "(2::nat) ^ t = 2 ^ i * (2 * 2 ^ (t - Suc i))"
    by (metis power_add power_Suc)
  then have "n div 2 ^ i = 2 * (2 ^ (t - Suc i) * k)" using n by simp
  then show ?thesis by (simp add: bit_iff_odd)
qed

lemma valuation_below_width:
  fixes h :: nat
  assumes "0 < h" "h < 2 ^ W" "2 ^ t dvd h"
  shows "t < W"
  by (meson assms nat_dvd_not_less power_le_dvd verit_comp_simplify1(3))

text \<open>
  \<^bold>\<open>C6\<close>, as the code has it. For a hash value \<open>h\<close> other than zero,
  \<^verbatim>\<open>_tail_length(h)\<close> is the number of trailing zero bits of \<open>h\<close>: the bits below
  that position are zero and the bit at it is one; for \<open>h\<close> below \<open>2 ^ W\<close> it is
  less than \<open>W\<close>. For \<open>h = 0\<close> the result is 1, the one digit of
  \<^verbatim>\<open>bin(0)[2:]\<close>, whatever the width.
\<close>

theorem tail_length_trailing_zeros:
  "tail_length 0 = 1 \<and>
   (0 < h \<longrightarrow> h < 2 ^ W \<longrightarrow>
      (\<forall>i<tail_length h. \<not> bit h i) \<and> bit h (tail_length h) \<and> tail_length h < W)"
proof (intro conjI impI)
  show "tail_length 0 = 1" by (rule tail_length_0)
next
  assume h: "0 < h" and w: "h < 2 ^ W"
  from tail_length_valuation [OF h] have d: "2 ^ tail_length h dvd h"
    and o: "odd (h div 2 ^ tail_length h)" by simp_all
  show "\<forall>i<tail_length h. \<not> bit h i"
    using d by (auto dest: low_bits_zero)
  show "bit h (tail_length h)"
    using o by (simp add: bit_iff_odd)
  show "tail_length h < W"
    using h w d by (rule valuation_below_width)
qed

text \<open>The theorem at the 128-bit hash value 12 (binary 1100), whose tail length is 2.\<close>

theorem tail_length_trailing_zeros_witness:
  "tail_length 0 = 1 \<and> (0::nat) < 12 \<and> (12::nat) < 2 ^ 128 \<and> tail_length 12 = 2 \<and>
   \<not> bit (12::nat) 0 \<and> \<not> bit (12::nat) 1 \<and> bit (12::nat) (tail_length 12) \<and>
   tail_length 12 < 128"
proof -
  have t: "tail_length 12 = 2" by code_simp
  from tail_length_trailing_zeros [of 12 128] t show ?thesis by simp
qed

text \<open>
  The claim as stated fails at the all-zero hash value: its tail length is 1, neither
  128 (the width of \<^verbatim>\<open>mmh3.hash128\<close>) nor 256 (the width of SHA-256).
\<close>

theorem tail_length_zero_not_width:
  "tail_length (unat (0 :: 128 word)) = 1 \<and> tail_length (unat (0 :: 128 word)) \<noteq> 128 \<and>
   tail_length (unat (0 :: 256 word)) = 1 \<and> tail_length (unat (0 :: 256 word)) \<noteq> 256"
  by (simp add: tail_length_0)

subsection \<open>Runs of process\<close>

lemma multiple_init_wf: "wf_multiple (multiple_init rnd ng hpg)"
proof -
  have "nat ng * nat hpg \<le> nat (ng * hpg)"
  proof (cases "0 < ng \<and> 0 < hpg")
    case True
    then show ?thesis by (simp add: nat_mult_distrib)
  next
    case False
    then have "nat ng = 0 \<or> nat hpg = 0" by auto
    then show ?thesis by auto
  qed
  then show ?thesis
    by (simp add: wf_multiple_def multiple_init_def)
qed

lemma Max_insert_max:
  fixes c a :: nat
  assumes "finite A"
  shows "Max (insert (max c a) A) = Max (insert c (insert a A))"
  using assms by (cases "A = {}") (simp_all add: max.assoc)

lemma multiple_process_all_cells:
  assumes "wf_multiple s"
  shows "\<exists>s'. multiple_process_all hf s vs = Inr s' \<and> wf_multiple s' \<and> same_frame s s' \<and>
           (\<forall>g i. g < nat (num_groups s) \<longrightarrow> i < nat (hashes_per_group s) \<longrightarrow>
              cell s' g i = Max (insert (cell s g i) ((\<lambda>v. tz_at hf v s g i) ` set vs)))"
  using assms
proof (induction vs arbitrary: s)
  case Nil
  then show ?case by (simp add: multiple_process_all_def same_frame_refl)
next
  case (Cons v vs)
  let ?G = "nat (num_groups s)" and ?H = "nat (hashes_per_group s)"
  from multiple_process_cells [where hf = hf and v = v, OF Cons.prems] obtain s1 where
    s1: "multiple_process hf s v = Inr s1" "wf_multiple s1" "same_frame s s1"
    and c1: "\<And>g i. g < ?G \<Longrightarrow> i < ?H \<Longrightarrow> cell s1 g i = max (cell s g i) (tz_at hf v s g i)"
    by auto
  from s1(3) have eqs: "nat (num_groups s1) = ?G" "nat (hashes_per_group s1) = ?H"
    by (simp_all add: same_frame_def)
  from Cons.IH [OF s1(2)] obtain s2 where
    s2: "multiple_process_all hf s1 vs = Inr s2" "wf_multiple s2" "same_frame s1 s2"
    and c2: "\<And>g i. g < ?G \<Longrightarrow> i < ?H \<Longrightarrow>
        cell s2 g i = Max (insert (cell s1 g i) ((\<lambda>v. tz_at hf v s1 g i) ` set vs))"
    unfolding eqs by auto
  have run: "multiple_process_all hf s (v # vs) = Inr s2"
    using s1(1) s2(1) by (simp add: multiple_process_all_def)
  have fr: "same_frame s s2" using s1(3) s2(3) by (rule same_frame_trans)
  have cells: "cell s2 g i = Max (insert (cell s g i) ((\<lambda>v. tz_at hf v s g i) ` set (v # vs)))"
    if "g < ?G" "i < ?H" for g i
  proof -
    have "cell s2 g i =
        Max (insert (max (cell s g i) (tz_at hf v s g i)) ((\<lambda>v. tz_at hf v s g i) ` set vs))"
      by (simp add: c2 [OF that] c1 [OF that] tz_at_frame [OF s1(3)])
    also have "\<dots> = Max (insert (cell s g i)
        (insert (tz_at hf v s g i) ((\<lambda>v. tz_at hf v s g i) ` set vs)))"
      by (rule Max_insert_max) simp
    finally show ?thesis by simp
  qed
  show ?case
    using run s2(2) fr cells by (intro exI [of _ s2]) simp
qed

lemma multiple_state_eq:
  assumes f1: "same_frame s s1" and f2: "same_frame s s2"
    and w1: "wf_multiple s1" and w2: "wf_multiple s2"
    and cells: "\<And>g i. g < nat (num_groups s) \<Longrightarrow> i < nat (hashes_per_group s) \<Longrightarrow>
                 cell s1 g i = cell s2 g i"
  shows "s1 = s2"
proof -
  let ?G = "nat (num_groups s)" and ?H = "nat (hashes_per_group s)"
  let ?m1 = "max_tail_length_m s1" and ?m2 = "max_tail_length_m s2"
  from f1 w1 have l1: "length ?m1 = ?G" and r1: "\<And>g. g < ?G \<Longrightarrow> length (?m1 ! g) = ?H"
    by (simp_all add: same_frame_def wf_multiple_def)
  from f2 w2 have l2: "length ?m2 = ?G" and r2: "\<And>g. g < ?G \<Longrightarrow> length (?m2 ! g) = ?H"
    by (simp_all add: same_frame_def wf_multiple_def)
  have "?m1 = ?m2"
  proof (rule nth_equalityI)
    show "length ?m1 = length ?m2" using l1 l2 by simp
  next
    fix g assume "g < length ?m1"
    then have g: "g < ?G" using l1 by simp
    show "?m1 ! g = ?m2 ! g"
    proof (rule nth_equalityI)
      show "length (?m1 ! g) = length (?m2 ! g)" using r1 [OF g] r2 [OF g] by simp
    next
      fix i assume "i < length (?m1 ! g)"
      then have "i < ?H" using r1 [OF g] by simp
      from cells [OF g this] show "?m1 ! g ! i = ?m2 ! g ! i" by (simp add: cell_def)
    qed
  qed
  with f1 f2 show ?thesis
    by (simp add: same_frame_def)
qed

lemma multiple_process_all_set:
  assumes "wf_multiple s" "set xs = set ys"
  shows "\<exists>s'. multiple_process_all hf s xs = Inr s' \<and> multiple_process_all hf s ys = Inr s' \<and>
           wf_multiple s' \<and> same_frame s s'"
proof -
  let ?G = "nat (num_groups s)" and ?H = "nat (hashes_per_group s)"
  from multiple_process_all_cells [where hf = hf and vs = xs, OF assms(1)] obtain s1 where
    s1: "multiple_process_all hf s xs = Inr s1" "wf_multiple s1" "same_frame s s1"
    and c1: "\<And>g i. g < ?G \<Longrightarrow> i < ?H \<Longrightarrow>
        cell s1 g i = Max (insert (cell s g i) ((\<lambda>v. tz_at hf v s g i) ` set xs))"
    by auto
  from multiple_process_all_cells [where hf = hf and vs = ys, OF assms(1)] obtain s2 where
    s2: "multiple_process_all hf s ys = Inr s2" "wf_multiple s2" "same_frame s s2"
    and c2: "\<And>g i. g < ?G \<Longrightarrow> i < ?H \<Longrightarrow>
        cell s2 g i = Max (insert (cell s g i) ((\<lambda>v. tz_at hf v s g i) ` set ys))"
    by auto
  have "s1 = s2"
  proof (rule multiple_state_eq [OF s1(3) s2(3) s1(2) s2(2)])
    fix g i assume "g < ?G" "i < ?H"
    then show "cell s1 g i = cell s2 g i"
      using c1 c2 assms(2) by simp
  qed
  with s1 s2 show ?thesis by auto
qed

lemma tail_length_hash128: "tail_length (multiple_hash hf v seed) < 128"
proof (cases "hf v seed = 0")
  case True
  then show ?thesis by (simp add: multiple_hash_def tail_length_0)
next
  case False
  let ?h = "unat (hf v seed)"
  from False have pos: "0 < ?h" by (simp add: unat_gt_0)
  have "?h < 2 ^ LENGTH(128)" by (rule unsigned_less)
  then have w: "?h < 2 ^ 128" by simp
  from tail_length_valuation [OF pos] have "2 ^ tail_length ?h dvd ?h" by simp
  with pos w have "tail_length ?h < 128" by (rule valuation_below_width)
  then show ?thesis by (simp add: multiple_hash_def)
qed

lemma multiple_reachable_cells:
  assumes "multiple_process_all hf (multiple_init rnd ng hpg) vs = Inr t"
  shows "cells_below 128 t"
proof -
  let ?s0 = "multiple_init rnd ng hpg"
  from multiple_process_all_cells [where hf = hf and vs = vs, OF multiple_init_wf [of rnd ng hpg]]
    assms
  have wf: "wf_multiple t" and fr: "same_frame ?s0 t"
    and c: "\<And>g i. g < nat (num_groups ?s0) \<Longrightarrow> i < nat (hashes_per_group ?s0) \<Longrightarrow>
        cell t g i = Max (insert (cell ?s0 g i) ((\<lambda>v. tz_at hf v ?s0 g i) ` set vs))"
    by auto
  from fr have eqs: "num_groups t = num_groups ?s0" "hashes_per_group t = hashes_per_group ?s0"
    by (simp_all add: same_frame_def)
  have small: "cell t g i < 128"
    if g: "g < nat (num_groups ?s0)" and i: "i < nat (hashes_per_group ?s0)" for g i
  proof -
    have "g < nat ng" "i < nat hpg" using g i by (simp_all add: multiple_init_def)
    then have z: "cell ?s0 g i = 0" by (simp add: cell_def multiple_init_def)
    have "Max (insert (cell ?s0 g i) ((\<lambda>v. tz_at hf v ?s0 g i) ` set vs)) < 128"
      by (subst Max_less_iff) (auto simp: z tz_at_def tail_length_hash128)
    with c [OF g i] show ?thesis by simp
  qed
  show ?thesis
    unfolding cells_below_def
  proof (intro ballI)
    fix grp r assume grp: "grp \<in> set (max_tail_length_m t)" and r: "r \<in> set grp"
    from grp obtain g where g: "g < length (max_tail_length_m t)" "grp = max_tail_length_m t ! g"
      by (auto simp: in_set_conv_nth)
    from r obtain i where i: "i < length grp" "r = grp ! i"
      by (auto simp: in_set_conv_nth)
    from wf g have "g < nat (num_groups ?s0)" "length grp = nat (hashes_per_group ?s0)"
      by (simp_all add: wf_multiple_def eqs)
    with i have "cell t g i < 128" by (intro small) simp_all
    with g i show "r < 128" by (simp add: cell_def)
  qed
qed

subsection \<open>Indices of the Bloom filter\<close>

text \<open>
  \<^bold>\<open>C10\<close>. For a Bloom filter constructed with a positive size \<open>m\<close> and any
  hash count \<open>k\<close>, in the state \<open>s\<close> after any run of \<^verbatim>\<open>add\<close> calls:
  \<^verbatim>\<open>_hashes\<close> returns \<open>nat k\<close> indices, each in \<open>[0, m)\<close> although the
  64-bit hash is signed, the bit array has \<open>m\<close> bits, and both \<^verbatim>\<open>add\<close> and
  \<^verbatim>\<open>query\<close> return without an exception.
\<close>

theorem bloom_indices_in_range:
  assumes "0 < m"
  shows "\<exists>b s hs s' r. bloom_init m k = Inr b \<and> bloom_add_all hfn b vs = Inr s \<and>
           size_bf s = m \<and> hash_count s = k \<and> length (bit_array s) = nat m \<and>
           bloom_hashes hfn s v = Inr hs \<and> length hs = nat k \<and>
           (\<forall>x\<in>set hs. 0 \<le> x \<and> x < m) \<and>
           bloom_add hfn s v = Inr s' \<and> bloom_query hfn s v = Inr r"
proof -
  from bloom_init_inv [where k = k, OF assms] obtain b where
    b: "bloom_init m k = Inr b" "bloom_inv b" by auto
  from b(1) assms have b0: "size_bf b = m" "hash_count b = k" "length (bit_array b) = nat m"
    by (auto simp: bloom_init_def)
  from bloom_add_all_frame [where hfn = hfn and vs = vs, OF b(2)] obtain s where
    s: "bloom_add_all hfn b vs = Inr s" "bloom_inv s" "size_bf s = size_bf b"
      "hash_count s = hash_count b" "length (bit_array s) = length (bit_array b)"
    by auto
  have sz: "0 < size_bf s" using s(3) b0(1) assms by simp
  from bloom_hashes_in_range [where hfn = hfn and v = v, OF sz] obtain hs where
    hs: "bloom_hashes hfn s v = Inr hs" "length hs = nat (hash_count s)"
      "in_range (nat (size_bf s)) hs"
    by auto
  have rng: "\<forall>x\<in>set hs. 0 \<le> x \<and> x < m"
    using hs(3) s(3) b0(1) assms by (auto simp: in_range_def)
  from bloom_add_sets [where hfn = hfn and v = v, OF s(2)] obtain s' where
    s': "bloom_add hfn s v = Inr s'" by auto
  have "in_range (length (bit_array s)) hs"
    using hs(3) s(3,5) b0(1,3) by simp
  from all_bits_total [OF this] obtain r where "all_bits (bit_array s) hs = Inr r" ..
  then have r: "bloom_query hfn s v = Inr r"
    by (simp add: bloom_query_def hs(1))
  show ?thesis
    using b(1) s(1) s(3) s(4) s(5) b0 hs(1) hs(2) rng s' r
    by (intro exI [of _ b] exI [of _ s] exI [of _ hs] exI [of _ s'] exI [of _ r]) simp
qed

text \<open>
  The theorem at an 8-bit filter with 3 hashes; the stub hash is negative (\<open>-1\<close> for
  seed 0) and its index is 7.
\<close>

theorem bloom_indices_in_range_witness:
  "(0::int) < 8 \<and> sint (fst (stub_hash64 ''a'' 0)) = - 1 \<and>
   sint (fst (stub_hash64 ''a'' 0)) mod 8 = 7 \<and>
   (\<exists>b s hs s' r. bloom_init 8 3 = Inr b \<and> bloom_add_all stub_hash64 b [''x''] = Inr s \<and>
      size_bf s = 8 \<and> hash_count s = 3 \<and> length (bit_array s) = nat 8 \<and>
      bloom_hashes stub_hash64 s ''a'' = Inr hs \<and> length hs = nat 3 \<and>
      (\<forall>x\<in>set hs. 0 \<le> x \<and> x < 8) \<and>
      bloom_add stub_hash64 s ''a'' = Inr s' \<and> bloom_query stub_hash64 s ''a'' = Inr r)"
  using bloom_indices_in_range [of 8 3 stub_hash64 "[''x'']" "''a''"]
  by (simp add: stub_hash64_def)

subsection \<open>The simple estimate\<close>

text \<open>
  The double quotient of 1 and \<^verbatim>\<open>phi\<close> is \<open>5822290115668182 / 2 ^ 52\<close>, about
  1.2928081084924563, and the division of a power of two by \<^verbatim>\<open>phi\<close> scales it
  without a further rounding, up to the largest power of two among the doubles.
\<close>

lemma corrected_value:
  assumes "r < 1024"
  shows "float_div (2 ^ r) phi_global = 5822290115668182 * 2 powi (int r - 52)"
proof -
  let ?x = "2 ^ r / phi_global :: real"
  have fd: "float_div (2 ^ r) phi_global = to_double ?x" using assms by (rule float_div_power2)
  have p: "0 < phi_global" "phi_global \<le> 1" by (rule phi_global_bounds)+
  have "(2::real) ^ r \<le> ?x" using p by (simp add: pos_le_divide_eq mult_left_le)
  then have lo: "2 powi int r \<le> ?x" by simp
  have "(2::real) ^ r < 2 * 2 ^ r * phi_global" by (simp add: phi_global_value)
  then have "?x < 2 * 2 ^ r" using p(1) by (simp add: pos_divide_less_eq)
  then have hi: "?x < 2 powi (int r + 1)" by (simp add: power_int_add)
  have "?x / 2 powi (int r - 52) = (2 powi int r / 2 powi (int r - 52)) / phi_global"
    by simp
  also have "2 powi int r / 2 powi (int r - 52) = real_of_int (2 ^ nat (int r - (int r - 52)))"
    by (rule powi_quotient_int) simp
  finally have q: "?x / 2 powi (int r - 52) = 2 ^ 52 / phi_global" by simp
  have k: "round_half_even (2 ^ 52 / phi_global) = 5822290115668182"
    by (simp add: phi_global_value round_half_even_def Let_def)
  have "(5822290115668182::real) * 2 powi (int r - 52) < 2 ^ 53 * 2 powi (int r - 52)"
    by simp
  also have "(2::real) ^ 53 * 2 powi (int r - 52) = 2 powi (int r + 1)"
    using powi_quotient_int [of "int r - 52" "int r + 1"] by (simp add: field_simps)
  also have "\<dots> \<le> 2 powi 1024" using assms by (intro power_int_increasing) simp_all
  also have "\<dots> = inf_double" by (simp add: inf_double_def)
  finally have b: "(5822290115668182::real) * 2 powi (int r - 52) < inf_double" .
  have "real_of_int (round_half_even (?x / 2 powi (int r - 52))) * 2 powi (int r - 52)
      < inf_double"
    unfolding q k using b by simp
  then have ev: "to_double ?x =
      real_of_int (round_half_even (?x / 2 powi (int r - 52))) * 2 powi (int r - 52)"
    by (intro to_double_eval_bounded [OF lo hi]) simp_all
  show ?thesis unfolding fd ev q k by simp
qed

lemma corrected_value_finite:
  assumes "r < 1024"
  shows "0 \<le> float_div (2 ^ r) phi_global" "float_div (2 ^ r) phi_global < inf_double"
proof -
  note v = corrected_value [OF assms]
  show "0 \<le> float_div (2 ^ r) phi_global" by (simp add: v)
  have "(5822290115668182::real) * 2 powi (int r - 52) < 2 ^ 53 * 2 powi (int r - 52)"
    by simp
  also have "(2::real) ^ 53 * 2 powi (int r - 52) = 2 powi (int r + 1)"
    using powi_quotient_int [of "int r - 52" "int r + 1"] by (simp add: field_simps)
  also have "\<dots> \<le> 2 powi 1024" using assms by (intro power_int_increasing) simp_all
  also have "\<dots> = inf_double" by (simp add: inf_double_def)
  finally show "float_div (2 ^ r) phi_global < inf_double" by (simp only: v)
qed

lemma caller_corrected_power2:
  "caller_corrected (2 ^ t) =
     (if t < 1024 then py_int (float_div (2 ^ t) phi_global) else Inl OverflowError)"
  using phi_global_bounds(3)
  by (simp add: caller_corrected_def int_div_float_def py_float_power2 py_float_power2_overflow)

lemma corrected_at_0: "float_div 1 phi_global = 2911145057834091 / 2251799813685248"
  using corrected_value [of 0] by simp

lemma corrected_at_1: "float_div 2 phi_global = 2911145057834091 / 1125899906842624"
  using corrected_value [of 1] by simp

lemma corrected_at_2: "float_div 4 phi_global = 2911145057834091 / 562949953421312"
  using corrected_value [of 2] by simp

lemma corrected_at_3: "float_div 8 phi_global = 2911145057834091 / 281474976710656"
  using corrected_value [of 3] by simp

lemma corrected_at_5: "float_div 32 phi_global = 2911145057834091 / 70368744177664"
  using corrected_value [of 5] by simp

lemma corrected_at_9: "float_div 512 phi_global = 2911145057834091 / 4398046511104"
  using corrected_value [of 9] by simp

lemma corrected_at_10: "float_div 1024 phi_global = 2911145057834091 / 2199023255552"
  using corrected_value [of 10] by simp

lemma corrected_at_11: "float_div 2048 phi_global = 2911145057834091 / 1099511627776"
  using corrected_value [of 11] by simp

lemma corrected_at_13: "float_div 8192 phi_global = 2911145057834091 / 274877906944"
  using corrected_value [of 13] by simp

lemma corrected_at_15: "float_div 32768 phi_global = 2911145057834091 / 68719476736"
  using corrected_value [of 15] by simp

lemma corrected_at_52: "float_div 4503599627370496 phi_global = 5822290115668182"
  using corrected_value [of 52] by simp

lemma caller_corrected_4: "caller_corrected 4 = Inr 5"
  using caller_corrected_power2 [of 2]
  by (simp add: corrected_at_2 py_int_def is_inf_def inf_double_def)

lemma caller_corrected_value:
  "caller_corrected (2 ^ t) =
     (if t < 1024 then Inr \<lfloor>(5822290115668182::real) * 2 powi (int t - 52)\<rfloor>
      else Inl OverflowError)"
proof (cases "t < 1024")
  case True
  from py_int_finite [OF corrected_value_finite [OF True]] True show ?thesis
    by (simp add: caller_corrected_power2 corrected_value)
next
  case False
  then show ?thesis by (simp add: caller_corrected_power2)
qed

text \<open>
  \<^bold>\<open>C7\<close>, as the code has it. \<^verbatim>\<open>FlajoletMartinSimple.estimate_cardinality\<close>
  takes no flag: in every state it returns exactly \<open>2 ^ max_tail_length\<close>, which is
  never the corrected value \<open>2 ^ max_tail_length / phi\<close>. The corrected estimate is
  computed by the calling cell from the returned value, as
  \<^verbatim>\<open>int(cardinality / phi)\<close> in double arithmetic: the truncation of the double
  quotient of \<open>2 ^ max_tail_length\<close> and \<^verbatim>\<open>phi\<close>, which is the floor of
  \<open>5822290115668182 * 2 ^ (max_tail_length - 52)\<close>, and OverflowError from a maximal
  tail length of 1024 on, where the power does not convert to a float.
\<close>

theorem simple_estimate_raw_only:
  "simple_estimate_cardinality s = 2 ^ max_tail_length s \<and>
   real_of_int (simple_estimate_cardinality s) \<noteq> 2 ^ max_tail_length s / phi_global \<and>
   caller_corrected (simple_estimate_cardinality s) =
     (if max_tail_length s < 1024 then py_int (float_div (2 ^ max_tail_length s) phi_global)
      else Inl OverflowError) \<and>
   caller_corrected (simple_estimate_cardinality s) =
     (if max_tail_length s < 1024
      then Inr \<lfloor>(5822290115668182::real) * 2 powi (int (max_tail_length s) - 52)\<rfloor>
      else Inl OverflowError)"
  using caller_corrected_power2 [of "max_tail_length s"]
    caller_corrected_value [of "max_tail_length s"]
  by (simp add: simple_estimate_cardinality_def phi_global_value)

text \<open>
  For example, from the maximal tail length 53 the calling cell computes
  11644580231336364.
\<close>

lemma caller_corrected_at_53: "caller_corrected (2 ^ 53) = Inr 11644580231336364"
  using caller_corrected_value [of 53] by simp

lemma stub_simple_state: "max_tail_length (simple_process stub_sha256 simple_init ''a'') = 2"
proof -
  have "tail_length 4 = 2" by code_simp
  then show ?thesis
  by (simp add: simple_process_def simple_init_def simple_hash_def stub_sha256_def)
qed

text \<open>
  The claim as stated fails in the state reached by processing one value whose hash is 4:
  the maximal tail length is 2 and the estimate operation returns 4, while the corrected
  form \<open>2 ^ 2 / phi\<close> is about 5.17; the calling cell computes 5 from the 4 returned.
\<close>

theorem simple_estimate_not_corrected:
  "max_tail_length (simple_process stub_sha256 simple_init ''a'') = 2 \<and>
   simple_estimate_cardinality (simple_process stub_sha256 simple_init ''a'') = 4 \<and>
   caller_corrected 4 = Inr 5 \<and>
   real_of_int (simple_estimate_cardinality (simple_process stub_sha256 simple_init ''a''))
     \<noteq> 2 ^ 2 / phi_global"
  by (simp add: stub_simple_state simple_estimate_cardinality_def caller_corrected_4
      phi_global_value)

subsection \<open>The grouped estimate\<close>

lemma corrected_values_ok:
  assumes "p \<noteq> 0" "\<forall>r\<in>set grp. r < 1024"
  shows "corrected_values p grp = Inr (map (\<lambda>r. float_div (2 ^ r) p) grp)"
  using assms by (induction grp) (simp_all add: int_div_float_power2)

lemma group_median_overflow: "1024 \<le> r \<Longrightarrow> group_median p (r # rs) = Inl OverflowError"
  by (simp add: group_median_def int_div_float_def py_float_power2_overflow)

lemma group_median_nonempty:
  assumes "grp \<noteq> []" "p \<noteq> 0" "\<forall>r\<in>set grp. r < 1024"
  shows "group_median p grp =
           Inr (sort (map (\<lambda>r. float_div (2 ^ r) p) grp) ! (length grp div 2))"
proof -
  let ?c = "map (\<lambda>r. float_div (2 ^ r) p) grp"
  have "length (sort ?c) = length grp" by simp
  moreover from this assms(1) have "sort ?c \<noteq> []"
    by (metis length_0_conv)
  ultimately show ?thesis
    using corrected_values_ok [OF assms(2,3)]
    by (simp add: group_median_def Let_def del: length_sort)
qed

lemma group_medians_nonempty:
  assumes "[] \<notin> set rows" "p \<noteq> 0" "\<forall>grp\<in>set rows. \<forall>r\<in>set grp. r < 1024"
  shows "group_medians p rows =
           Inr (map (\<lambda>grp. sort (map (\<lambda>r. float_div (2 ^ r) p) grp) ! (length grp div 2)) rows)"
  using assms by (induction rows) (auto simp: group_median_nonempty)

lemma upper_middle_index:
  assumes "xs \<noteq> []"
  shows "upper_middle xs = sort xs ! (length xs div 2)"
proof -
  let ?n = "length xs"
  from assms have n: "0 < ?n" by simp
  have "(?n - 1) div 2 < ?n" using n by arith
  then have "(?n - 1) div 2 < length (sort xs)" by simp
  then have "rev (sort xs) ! ((?n - 1) div 2) = sort xs ! (length (sort xs) - Suc ((?n - 1) div 2))"
    by (rule rev_nth)
  moreover have "?n - Suc ((?n - 1) div 2) = ?n div 2" using n by arith
  ultimately show ?thesis by (simp add: upper_middle_def)
qed

lemma lower_middle_even:
  assumes "even (length xs)"
  shows "lower_middle xs = sort xs ! (length xs div 2 - 1)"
proof -
  have "(length xs - 1) div 2 = length xs div 2 - 1" using assms by (auto elim!: evenE)
  then show ?thesis by (simp add: lower_middle_def)
qed

lemma wf_rows_nonempty:
  assumes "wf_multiple s" "0 < num_groups s" "0 < hashes_per_group s"
  shows "max_tail_length_m s \<noteq> []" "[] \<notin> set (max_tail_length_m s)"
    "\<forall>grp\<in>set (max_tail_length_m s). length grp = nat (hashes_per_group s)"
proof -
  from assms show "max_tail_length_m s \<noteq> []"
    by (auto simp: wf_multiple_def)
  from assms(1) show rows: "\<forall>grp\<in>set (max_tail_length_m s). length grp = nat (hashes_per_group s)"
    by (auto simp: wf_multiple_def in_set_conv_nth)
  with assms(3) show "[] \<notin> set (max_tail_length_m s)" by auto
qed

lemma upper_medians_sorted:
  assumes "[] \<notin> set rows"
  shows "upper_medians p rows =
           map (\<lambda>grp. sort (map (\<lambda>r. float_div (2 ^ r) p) grp) ! (length grp div 2)) rows"
proof -
  have "upper_middle (map (\<lambda>r. float_div (2 ^ r) p) grp) =
      sort (map (\<lambda>r. float_div (2 ^ r) p) grp) ! (length grp div 2)"
    if "grp \<in> set rows" for grp
  proof -
    from that assms have "map (\<lambda>r. float_div (2 ^ r) p) grp \<noteq> []" by auto
    from upper_middle_index [OF this] show ?thesis by simp
  qed
  then show ?thesis by (simp add: upper_medians_def)
qed

lemma upper_medians_bounds:
  assumes "[] \<notin> set rows" "\<forall>grp\<in>set rows. \<forall>r\<in>set grp. r < 128"
  shows "\<forall>x\<in>set (upper_medians phi_global rows). 1 \<le> x \<and> x \<le> 2 ^ 128 \<and> to_double x = x"
proof
  fix x assume "x \<in> set (upper_medians phi_global rows)"
  then obtain grp where grp: "grp \<in> set rows"
    and x: "x = sort (map (\<lambda>r. float_div (2 ^ r) phi_global) grp) ! (length grp div 2)"
    by (auto simp: upper_medians_sorted [OF assms(1)])
  let ?xs = "sort (map (\<lambda>r. float_div (2 ^ r) phi_global) grp)"
  from grp assms(1) have "grp \<noteq> []" by auto
  then have "length grp div 2 < length ?xs" by simp
  then have "?xs ! (length grp div 2) \<in> set ?xs" by (rule nth_mem)
  then obtain r where "r \<in> set grp" "x = float_div (2 ^ r) phi_global"
    using x by auto
  moreover from this grp assms(2) have "r < 128" by blast
  ultimately show "1 \<le> x \<and> x \<le> 2 ^ 128 \<and> to_double x = x"
    using corrected_value_bounds [of r] by simp
qed

lemma multiple_estimate_value:
  assumes "wf_multiple s" "0 < num_groups s" "0 < hashes_per_group s"
    "phi s = phi_global" "cells_below 128 s"
  shows "group_medians (phi s) (max_tail_length_m s)
           = Inr (upper_medians (phi s) (max_tail_length_m s))"
    "upper_medians (phi s) (max_tail_length_m s) \<noteq> []"
    "\<forall>x\<in>set (upper_medians (phi s) (max_tail_length_m s)).
        1 \<le> x \<and> x \<le> 2 ^ 128 \<and> to_double x = x"
    "mean_estimate (upper_medians (phi s) (max_tail_length_m s))
       = Inr (float_div (py_sum (upper_medians (phi s) (max_tail_length_m s)))
                (to_double (real (nat (num_groups s)))))"
    "multiple_estimate_cardinality s
       = Inr \<lfloor>float_div (py_sum (upper_medians (phi s) (max_tail_length_m s)))
                (to_double (real (nat (num_groups s))))\<rfloor>"
proof -
  let ?rows = "max_tail_length_m s"
  let ?ms = "upper_medians (phi s) ?rows"
  note ne = wf_rows_nonempty [OF assms(1-3)]
  have len: "length ?rows = nat (num_groups s)"
    using assms(1) by (simp add: wf_multiple_def)
  have c128: "\<forall>grp\<in>set ?rows. \<forall>r\<in>set grp. r < 128"
    using assms(5) by (simp add: cells_below_def)
  then have c1024: "\<forall>grp\<in>set ?rows. \<forall>r\<in>set grp. r < 1024" by fastforce
  have p: "phi s \<noteq> 0" using phi_global_bounds(3) by (simp add: assms(4))
  show gm: "group_medians (phi s) ?rows = Inr ?ms"
    using group_medians_nonempty [OF ne(2) p c1024] by (simp add: upper_medians_sorted [OF ne(2)])
  show ms: "?ms \<noteq> []" using ne(1) by (simp add: upper_medians_def)
  show b: "\<forall>x\<in>set ?ms. 1 \<le> x \<and> x \<le> 2 ^ 128 \<and> to_double x = x"
    using upper_medians_bounds [OF ne(2) c128] by (simp add: assms(4))
  have lms: "length ?ms = nat (num_groups s)" by (simp add: upper_medians_def len)
  note me = mean_estimate_finite [OF ms b]
  show mean: "mean_estimate ?ms = Inr (float_div (py_sum ?ms) (to_double (real (nat (num_groups s)))))"
    using ms by (simp add: mean_estimate_def lms)
  with me(1) have eq: "float_div (py_sum ?ms) (to_double (real (nat (num_groups s))))
      = to_double (py_sum ?ms / to_double (real (length ?ms)))" by simp
  have "to_double (py_sum ?ms / to_double (real (length ?ms))) < inf_double"
    using me(3) by (simp add: inf_double_def)
  from py_int_finite [OF me(2) this]
  show "multiple_estimate_cardinality s
      = Inr \<lfloor>float_div (py_sum ?ms) (to_double (real (nat (num_groups s))))\<rfloor>"
    by (simp add: multiple_estimate_cardinality_def gm mean eq)
qed

text \<open>
  \<^bold>\<open>C2\<close>, as the code has it. For a well-formed state with positive
  \<^verbatim>\<open>num_groups\<close> and \<^verbatim>\<open>hashes_per_group\<close>, with the \<^verbatim>\<open>phi\<close> that the
  constructor sets and cells below 128 (as in every state that \<^verbatim>\<open>process\<close>
  reaches), \<^verbatim>\<open>estimate_cardinality\<close> returns the truncation of the mean, taken in
  double arithmetic over the \<^verbatim>\<open>num_groups\<close> groups, of each group's median: the sum
  of the medians from left to right, divided by their number. The median is the element at
  the zero-based index \<^verbatim>\<open>hashes_per_group // 2\<close> of the ascending sort of the
  corrected values, the double quotients of \<open>2 ^ r\<close> and \<^verbatim>\<open>phi\<close>, which is the
  upper-middle element (for an odd size the middle one). The mean is not negative, so
  that its truncation is its floor.
\<close>

theorem estimate_cardinality_upper_middle:
  assumes "wf_multiple s" "0 < num_groups s" "0 < hashes_per_group s"
    "phi s = phi_global" "cells_below 128 s"
  shows "multiple_estimate_cardinality s =
           Inr \<lfloor>float_div (py_sum (upper_medians (phi s) (max_tail_length_m s)))
                  (to_double (real (nat (num_groups s))))\<rfloor> \<and>
         length (max_tail_length_m s) = nat (num_groups s) \<and>
         (\<forall>grp\<in>set (max_tail_length_m s).
            length grp = nat (hashes_per_group s) \<and>
            upper_middle (map (\<lambda>r. float_div (2 ^ r) (phi s)) grp) =
              sort (map (\<lambda>r. float_div (2 ^ r) (phi s)) grp) ! (nat (hashes_per_group s) div 2))"
proof -
  let ?c = "\<lambda>r::nat. float_div (2 ^ r) (phi s)"
  let ?rows = "max_tail_length_m s"
  note ne = wf_rows_nonempty [OF assms(1-3)]
  have len: "length ?rows = nat (num_groups s)"
    using assms(1) by (simp add: wf_multiple_def)
  have um: "upper_middle (map ?c grp) = sort (map ?c grp) ! (length grp div 2)"
    if "grp \<in> set ?rows" for grp
  proof -
    from that ne(2) have "map ?c grp \<noteq> []" by auto
    from upper_middle_index [OF this] show ?thesis by simp
  qed
  have "\<forall>grp\<in>set ?rows. length grp = nat (hashes_per_group s) \<and>
      upper_middle (map ?c grp) = sort (map ?c grp) ! (nat (hashes_per_group s) div 2)"
    using um ne(3) by auto
  with multiple_estimate_value(5) [OF assms] len show ?thesis by blast
qed

lemma sum_list_upper:
  fixes xs :: "real list"
  assumes "\<forall>x\<in>set xs. x \<le> M"
  shows "sum_list xs \<le> real (length xs) * M"
  using assms by (induction xs) (auto simp: algebra_simps)

lemma sum_list_lower:
  fixes xs :: "real list"
  assumes "\<forall>x\<in>set xs. m \<le> x"
  shows "real (length xs) * m \<le> sum_list xs"
  using assms by (induction xs) (auto simp: algebra_simps)

lemma mean_between:
  fixes xs :: "real list"
  assumes "xs \<noteq> []"
  shows "Min (set xs) \<le> sum_list xs / real (length xs)"
    and "sum_list xs / real (length xs) \<le> Max (set xs)"
proof -
  from assms have n: "0 < real (length xs)" by simp
  have "real (length xs) * Min (set xs) \<le> sum_list xs"
    by (rule sum_list_lower) simp
  then show "Min (set xs) \<le> sum_list xs / real (length xs)"
    using n by (simp add: pos_le_divide_eq mult.commute)
  have "sum_list xs \<le> real (length xs) * Max (set xs)"
    by (rule sum_list_upper) simp
  then show "sum_list xs / real (length xs) \<le> Max (set xs)"
    using n by (simp add: pos_divide_le_eq mult.commute)
qed

lemma mean_estimate_bounds:
  assumes "xs \<noteq> []" "length xs \<le> 2 ^ 53"
    "\<forall>x\<in>set xs. 1 \<le> x \<and> x \<le> 2 ^ 128 \<and> to_double x = x"
  shows "\<exists>m. mean_estimate xs = Inr m \<and> 0 \<le> m \<and> m < inf_double \<and>
           Min (set xs) * (1 - 1 / 2 ^ 53) ^ length xs \<le> m \<and>
           m \<le> Max (set xs) * (1 + 1 / 2 ^ 53) ^ length xs"
proof -
  let ?d = "1 - 1 / 2 ^ 53 :: real" and ?u = "1 + 1 / 2 ^ 53 :: real"
  let ?n = "length xs"
  let ?S = "py_sum xs"
  from assms(1) have n: "0 < ?n" by simp
  then have rn: "0 < real ?n" by simp
  have fn: "to_double (real ?n) = real ?n" using n assms(2) by (rule to_double_length)
  let ?m = "to_double (?S / real ?n)"
  note me = mean_estimate_finite [OF assms(1,3), unfolded fn]
  note sb = py_sum_bounds [OF assms(1,3)]
  have fin: "?m < inf_double" using me(3) by (simp add: inf_double_def)
  have "real ?n \<le> 2 ^ 53" using assms(2) by (metis of_nat_le_iff of_nat_numeral of_nat_power)
  with sb(1) rn have "1 / 2 ^ 53 \<le> ?S / real ?n"
    by (simp add: pos_le_divide_eq pos_divide_le_eq)
  moreover have "(2::real) powi (- 1022) \<le> 1 / 2 ^ 53"
    by (simp add: power_int_minus divide_simps)
  ultimately have lo: "2 powi (- 1022) \<le> ?S / real ?n" by linarith
  from to_double_rel_error [OF lo fin]
  have err: "\<bar>?m - ?S / real ?n\<bar> \<le> ?S / real ?n / 2 ^ 53" .
  have l: "?S / real ?n * ?d = ?S / real ?n - ?S / real ?n / 2 ^ 53"
    and h: "?S / real ?n * ?u = ?S / real ?n + ?S / real ?n / 2 ^ 53"
    by (simp_all only: right_diff_distrib distrib_left mult_1_right times_divide_eq_right)
  have m_lo: "?S / real ?n * ?d \<le> ?m" unfolding l using err by linarith
  have m_hi: "?m \<le> ?S / real ?n * ?u" unfolding h using err by linarith
  have d0: "0 \<le> ?d" and u0: "0 \<le> ?u" by simp_all
  have k: "Suc (?n - 1) = ?n" using n by simp
  note mb = mean_between [OF assms(1)]
  have "Min (set xs) * ?d ^ (?n - 1) \<le> sum_list xs / real ?n * ?d ^ (?n - 1)"
    using mb(1) d0 by (intro mult_right_mono) simp_all
  also have "\<dots> = sum_list xs * ?d ^ (?n - 1) / real ?n" by simp
  also have "\<dots> \<le> ?S / real ?n" using sb(3) rn by (simp add: divide_right_mono)
  finally have "Min (set xs) * ?d ^ (?n - 1) * ?d \<le> ?S / real ?n * ?d"
    using d0 by (rule mult_right_mono)
  then have "Min (set xs) * ?d ^ Suc (?n - 1) \<le> ?S / real ?n * ?d" by (simp add: mult.assoc)
  with m_lo have lower: "Min (set xs) * ?d ^ ?n \<le> ?m" unfolding k by linarith
  have "?S / real ?n \<le> sum_list xs * ?u ^ (?n - 1) / real ?n"
    using sb(4) rn by (simp add: divide_right_mono)
  also have "\<dots> = sum_list xs / real ?n * ?u ^ (?n - 1)" by simp
  also have "\<dots> \<le> Max (set xs) * ?u ^ (?n - 1)"
    using mb(2) u0 by (intro mult_right_mono) simp_all
  finally have "?S / real ?n * ?u \<le> Max (set xs) * ?u ^ (?n - 1) * ?u"
    using u0 by (rule mult_right_mono)
  then have "?S / real ?n * ?u \<le> Max (set xs) * ?u ^ Suc (?n - 1)" by (simp add: mult.assoc)
  with m_hi have upper: "?m \<le> Max (set xs) * ?u ^ ?n" unfolding k by linarith
  from me(1,2) fin lower upper show ?thesis by blast
qed

text \<open>
  \<^bold>\<open>C8\<close>, as the code has it. For a well-formed state with positive
  \<^verbatim>\<open>num_groups\<close> (at most \<open>2 ^ 53\<close>, so that the number of groups is a double)
  and \<^verbatim>\<open>hashes_per_group\<close>, with the \<^verbatim>\<open>phi\<close> that the constructor sets and
  cells below 128, the mean that \<^verbatim>\<open>estimate_cardinality\<close> computes in double
  arithmetic lies between the minimum of the group medians, lowered by the factor
  \<open>(1 - 2 ^ - 53) ^ num_groups\<close>, and their maximum, raised by the factor
  \<open>(1 + 2 ^ - 53) ^ num_groups\<close>: every addition and the division round. The value
  returned is the floor of that mean, so it is at most the raised maximum and more than
  the lowered minimum minus one.
\<close>

theorem estimate_truncated_median_bound:
  assumes "wf_multiple s" "0 < num_groups s" "num_groups s \<le> 2 ^ 53"
    "0 < hashes_per_group s" "phi s = phi_global" "cells_below 128 s"
  shows "\<exists>ms m e. group_medians (phi s) (max_tail_length_m s) = Inr ms \<and>
           length ms = nat (num_groups s) \<and>
           mean_estimate ms = Inr m \<and>
           multiple_estimate_cardinality s = Inr e \<and> e = \<lfloor>m\<rfloor> \<and>
           Min (set ms) * (1 - 1 / 2 ^ 53) ^ length ms \<le> m \<and>
           m \<le> Max (set ms) * (1 + 1 / 2 ^ 53) ^ length ms \<and>
           Min (set ms) * (1 - 1 / 2 ^ 53) ^ length ms < real_of_int e + 1 \<and>
           real_of_int e \<le> Max (set ms) * (1 + 1 / 2 ^ 53) ^ length ms"
proof -
  let ?ms = "upper_medians (phi s) (max_tail_length_m s)"
  note v = multiple_estimate_value [OF assms(1,2,4,5,6)]
  have len: "length ?ms = nat (num_groups s)"
    using assms(1) by (simp add: upper_medians_def wf_multiple_def)
  have "int (nat (num_groups s)) \<le> 2 ^ 53" using assms(2,3) by simp
  then have "nat (num_groups s) \<le> 2 ^ 53" by (metis of_nat_le_iff of_nat_numeral of_nat_power)
  then have n53: "length ?ms \<le> 2 ^ 53" by (simp only: len)
  from mean_estimate_bounds [OF v(2) n53 v(3)] obtain m where
    m: "mean_estimate ?ms = Inr m" "0 \<le> m" "m < inf_double"
      "Min (set ?ms) * (1 - 1 / 2 ^ 53) ^ length ?ms \<le> m"
      "m \<le> Max (set ?ms) * (1 + 1 / 2 ^ 53) ^ length ?ms"
    by blast
  from m(1) v(4) have mv: "float_div (py_sum ?ms) (to_double (real (nat (num_groups s)))) = m"
    by simp
  with v(5) have e: "multiple_estimate_cardinality s = Inr \<lfloor>m\<rfloor>" by simp
  have "real_of_int \<lfloor>m\<rfloor> \<le> m" "m < real_of_int \<lfloor>m\<rfloor> + 1" by linarith+
  with m(4,5) have "Min (set ?ms) * (1 - 1 / 2 ^ 53) ^ length ?ms < real_of_int \<lfloor>m\<rfloor> + 1"
    "real_of_int \<lfloor>m\<rfloor> \<le> Max (set ?ms) * (1 + 1 / 2 ^ 53) ^ length ?ms"
    by linarith+
  with v(1) len m(1,4,5) e show ?thesis by blast
qed

subsection \<open>Concrete runs with the stubs\<close>

lemma tail_length_4: "tail_length 4 = 2"
  by code_simp

lemma tail_length_8: "tail_length 8 = 3"
  by code_simp

lemma replicate_two: "replicate 2 x = [x, x]"
  by (simp add: numeral_2_eq_2)

lemma stub_pair_run:
  "multiple_process_all stub_hash128 (multiple_init stub_randint 1 2) [''a''] = Inr stub_pair_state"
  by (simp add: multiple_process_all_def multiple_process_def process_group_def update_cell_def
      py_index_def multiple_hash_def stub_hash128_def stub_randint_def multiple_init_def
      stub_pair_state_def tail_length_4 tail_length_8 upt_rec replicate_two)

lemma stub_single_run:
  "multiple_process_all stub_hash128 (multiple_init stub_randint 1 1) [''a''] = Inr stub_single_state"
  by (simp add: multiple_process_all_def multiple_process_def process_group_def update_cell_def
      py_index_def multiple_hash_def stub_hash128_def stub_randint_def multiple_init_def
      stub_single_state_def tail_length_4 upt_rec)

lemma stub_two_run:
  "multiple_process_all stub_hash128 (multiple_init stub_randint 2 1) [''a''] = Inr stub_two_state"
  by (simp add: multiple_process_all_def multiple_process_def process_group_def update_cell_def
      py_index_def multiple_hash_def stub_hash128_def stub_randint_def multiple_init_def
      stub_two_state_def tail_length_4 tail_length_8 upt_rec replicate_two)

lemma stub_pair_wf: "wf_multiple stub_pair_state"
  by (simp add: wf_multiple_def stub_pair_state_def)

lemma stub_single_wf: "wf_multiple stub_single_state"
  by (simp add: wf_multiple_def stub_single_state_def)

lemma stub_two_wf: "wf_multiple stub_two_state"
  by (simp add: wf_multiple_def stub_two_state_def less_Suc_eq numeral_2_eq_2)

lemma stub_ten_wf: "wf_multiple stub_ten_state"
  by (simp add: wf_multiple_def stub_ten_state_def nth_Cons split: nat.split)

lemma stub_simple_run:
  "max_tail_length (simple_process_all stub_sha256 simple_init [''a'']) = 2"
  by (simp add: simple_process_all_def simple_process_def simple_init_def simple_hash_def
      stub_sha256_def tail_length_4)

text \<open>
  The estimates in these states, step by step: the group medians, their mean in double
  arithmetic, and its truncation.
\<close>

lemma fresh_single_medians:
  "group_medians phi_global [[0]] =
     Inr [2911145057834091 / 2251799813685248]"
proof -
  have "[] \<notin> set [[0::nat]]" "phi_global \<noteq> 0"
    "\<forall>grp\<in>set [[0::nat]]. \<forall>r\<in>set grp. r < 1024"
    using phi_global_bounds(3) by simp_all
  from group_medians_nonempty [OF this] show ?thesis
    by (simp add: corrected_at_0)
qed

lemma fresh_single_mean:
  "mean_estimate [2911145057834091 / 2251799813685248] =
     Inr (2911145057834091 / 2251799813685248)"
proof -
  have s1: "float_add 0 (2911145057834091 / 2251799813685248) = 2911145057834091 / 2251799813685248"
  proof -
    have "float_add 0 (2911145057834091 / 2251799813685248) = to_double (0 + 2911145057834091 / 2251799813685248)"
      by (rule float_add_eval) (simp_all add: inf_double_def)
    also have "\<dots> = 2911145057834091 / 2251799813685248"
      by (rule trans [OF to_double_eval [where e = 0]]) (simp_all add: round_half_even_def Let_def)
    finally show ?thesis .
  qed
  have n: "to_double (real (length [2911145057834091 / 2251799813685248])) = 1"
    using to_double_length [of 1] by simp
  have d: "float_div (2911145057834091 / 2251799813685248) 1 = 2911145057834091 / 2251799813685248"
  proof -
    have "float_div (2911145057834091 / 2251799813685248) 1 = to_double (2911145057834091 / 2251799813685248 / 1)"
      by (rule float_div_eval) (simp_all add: inf_double_def)
    also have "\<dots> = 2911145057834091 / 2251799813685248"
      by (rule trans [OF to_double_eval [where e = 0]]) (simp_all add: round_half_even_def Let_def)
    finally show ?thesis .
  qed
  show ?thesis
    unfolding mean_estimate_def py_sum_def n
    by (simp add: s1 d)
qed

lemma fresh_single_estimate: "multiple_estimate_cardinality (multiple_init stub_randint 1 1) = Inr 1"
proof -
  have p: "py_int (2911145057834091 / 2251799813685248) = Inr 1"
    by (simp add: py_int_def is_inf_def inf_double_def)
  have st: "phi (multiple_init stub_randint 1 1) = phi_global"
    "max_tail_length_m (multiple_init stub_randint 1 1) = [[0]]"
    by (simp_all add: multiple_init_def)
  show ?thesis
    unfolding multiple_estimate_cardinality_def st fresh_single_medians fresh_single_mean sum.case
    by (rule p)
qed

lemma stub_pair_medians:
  "group_medians phi_global [[2, 3]] =
     Inr [2911145057834091 / 281474976710656]"
proof -
  have "[] \<notin> set [[2::nat, 3]]" "phi_global \<noteq> 0"
    "\<forall>grp\<in>set [[2::nat, 3]]. \<forall>r\<in>set grp. r < 1024"
    using phi_global_bounds(3) by simp_all
  from group_medians_nonempty [OF this] show ?thesis
    by (simp add: corrected_at_2 corrected_at_3)
qed

lemma stub_pair_mean:
  "mean_estimate [2911145057834091 / 281474976710656] =
     Inr (2911145057834091 / 281474976710656)"
proof -
  have s1: "float_add 0 (2911145057834091 / 281474976710656) = 2911145057834091 / 281474976710656"
  proof -
    have "float_add 0 (2911145057834091 / 281474976710656) = to_double (0 + 2911145057834091 / 281474976710656)"
      by (rule float_add_eval) (simp_all add: inf_double_def)
    also have "\<dots> = 2911145057834091 / 281474976710656"
      by (rule trans [OF to_double_eval [where e = 3]]) (simp_all add: round_half_even_def Let_def)
    finally show ?thesis .
  qed
  have n: "to_double (real (length [2911145057834091 / 281474976710656])) = 1"
    using to_double_length [of 1] by simp
  have d: "float_div (2911145057834091 / 281474976710656) 1 = 2911145057834091 / 281474976710656"
  proof -
    have "float_div (2911145057834091 / 281474976710656) 1 = to_double (2911145057834091 / 281474976710656 / 1)"
      by (rule float_div_eval) (simp_all add: inf_double_def)
    also have "\<dots> = 2911145057834091 / 281474976710656"
      by (rule trans [OF to_double_eval [where e = 3]]) (simp_all add: round_half_even_def Let_def)
    finally show ?thesis .
  qed
  show ?thesis
    unfolding mean_estimate_def py_sum_def n
    by (simp add: s1 d)
qed

lemma stub_pair_estimate: "multiple_estimate_cardinality stub_pair_state = Inr 10"
proof -
  have p: "py_int (2911145057834091 / 281474976710656) = Inr 10"
    by (simp add: py_int_def is_inf_def inf_double_def)
  have st: "phi stub_pair_state = phi_global"
    "max_tail_length_m stub_pair_state = [[2, 3]]"
    by (simp_all add: stub_pair_state_def)
  show ?thesis
    unfolding multiple_estimate_cardinality_def st stub_pair_medians stub_pair_mean sum.case
    by (rule p)
qed

lemma stub_single_medians:
  "group_medians phi_global [[2]] =
     Inr [2911145057834091 / 562949953421312]"
proof -
  have "[] \<notin> set [[2::nat]]" "phi_global \<noteq> 0"
    "\<forall>grp\<in>set [[2::nat]]. \<forall>r\<in>set grp. r < 1024"
    using phi_global_bounds(3) by simp_all
  from group_medians_nonempty [OF this] show ?thesis
    by (simp add: corrected_at_2)
qed

lemma stub_single_mean:
  "mean_estimate [2911145057834091 / 562949953421312] =
     Inr (2911145057834091 / 562949953421312)"
proof -
  have s1: "float_add 0 (2911145057834091 / 562949953421312) = 2911145057834091 / 562949953421312"
  proof -
    have "float_add 0 (2911145057834091 / 562949953421312) = to_double (0 + 2911145057834091 / 562949953421312)"
      by (rule float_add_eval) (simp_all add: inf_double_def)
    also have "\<dots> = 2911145057834091 / 562949953421312"
      by (rule trans [OF to_double_eval [where e = 2]]) (simp_all add: round_half_even_def Let_def)
    finally show ?thesis .
  qed
  have n: "to_double (real (length [2911145057834091 / 562949953421312])) = 1"
    using to_double_length [of 1] by simp
  have d: "float_div (2911145057834091 / 562949953421312) 1 = 2911145057834091 / 562949953421312"
  proof -
    have "float_div (2911145057834091 / 562949953421312) 1 = to_double (2911145057834091 / 562949953421312 / 1)"
      by (rule float_div_eval) (simp_all add: inf_double_def)
    also have "\<dots> = 2911145057834091 / 562949953421312"
      by (rule trans [OF to_double_eval [where e = 2]]) (simp_all add: round_half_even_def Let_def)
    finally show ?thesis .
  qed
  show ?thesis
    unfolding mean_estimate_def py_sum_def n
    by (simp add: s1 d)
qed

lemma stub_single_estimate: "multiple_estimate_cardinality stub_single_state = Inr 5"
proof -
  have p: "py_int (2911145057834091 / 562949953421312) = Inr 5"
    by (simp add: py_int_def is_inf_def inf_double_def)
  have st: "phi stub_single_state = phi_global"
    "max_tail_length_m stub_single_state = [[2]]"
    by (simp_all add: stub_single_state_def)
  show ?thesis
    unfolding multiple_estimate_cardinality_def st stub_single_medians stub_single_mean sum.case
    by (rule p)
qed

lemma stub_two_medians:
  "group_medians phi_global [[2], [3]] =
     Inr [2911145057834091 / 562949953421312, 2911145057834091 / 281474976710656]"
proof -
  have "[] \<notin> set [[2::nat], [3]]" "phi_global \<noteq> 0"
    "\<forall>grp\<in>set [[2::nat], [3]]. \<forall>r\<in>set grp. r < 1024"
    using phi_global_bounds(3) by simp_all
  from group_medians_nonempty [OF this] show ?thesis
    by (simp add: corrected_at_2 corrected_at_3)
qed

lemma stub_two_mean:
  "mean_estimate [2911145057834091 / 562949953421312, 2911145057834091 / 281474976710656] =
     Inr (8733435173502273 / 1125899906842624)"
proof -
  have s1: "float_add 0 (2911145057834091 / 562949953421312) = 2911145057834091 / 562949953421312"
  proof -
    have "float_add 0 (2911145057834091 / 562949953421312) = to_double (0 + 2911145057834091 / 562949953421312)"
      by (rule float_add_eval) (simp_all add: inf_double_def)
    also have "\<dots> = 2911145057834091 / 562949953421312"
      by (rule trans [OF to_double_eval [where e = 2]]) (simp_all add: round_half_even_def Let_def)
    finally show ?thesis .
  qed
  have s2: "float_add (2911145057834091 / 562949953421312) (2911145057834091 / 281474976710656) = 8733435173502273 / 562949953421312"
  proof -
    have "float_add (2911145057834091 / 562949953421312) (2911145057834091 / 281474976710656) = to_double ((2911145057834091 / 562949953421312) + 2911145057834091 / 281474976710656)"
      by (rule float_add_eval) (simp_all add: inf_double_def)
    also have "\<dots> = 8733435173502273 / 562949953421312"
      by (rule trans [OF to_double_eval [where e = 3]]) (simp_all add: round_half_even_def Let_def)
    finally show ?thesis .
  qed
  have n: "to_double (real (length [2911145057834091 / 562949953421312, 2911145057834091 / 281474976710656])) = 2"
    using to_double_length [of 2] by simp
  have d: "float_div (8733435173502273 / 562949953421312) 2 = 8733435173502273 / 1125899906842624"
  proof -
    have "float_div (8733435173502273 / 562949953421312) 2 = to_double (8733435173502273 / 562949953421312 / 2)"
      by (rule float_div_eval) (simp_all add: inf_double_def)
    also have "\<dots> = 8733435173502273 / 1125899906842624"
      by (rule trans [OF to_double_eval [where e = 2]]) (simp_all add: round_half_even_def Let_def)
    finally show ?thesis .
  qed
  show ?thesis
    unfolding mean_estimate_def py_sum_def n
    by (simp add: s1 s2 d)
qed

lemma stub_two_estimate: "multiple_estimate_cardinality stub_two_state = Inr 7"
proof -
  have p: "py_int (8733435173502273 / 1125899906842624) = Inr 7"
    by (simp add: py_int_def is_inf_def inf_double_def)
  have st: "phi stub_two_state = phi_global"
    "max_tail_length_m stub_two_state = [[2], [3]]"
    by (simp_all add: stub_two_state_def)
  show ?thesis
    unfolding multiple_estimate_cardinality_def st stub_two_medians stub_two_mean sum.case
    by (rule p)
qed

lemma stub_six_medians:
  "group_medians phi_global [[52], [52], [52], [52], [52], [52]] =
     Inr [5822290115668182, 5822290115668182, 5822290115668182, 5822290115668182, 5822290115668182, 5822290115668182]"
proof -
  have "[] \<notin> set [[52::nat], [52], [52], [52], [52], [52]]" "phi_global \<noteq> 0"
    "\<forall>grp\<in>set [[52::nat], [52], [52], [52], [52], [52]]. \<forall>r\<in>set grp. r < 1024"
    using phi_global_bounds(3) by simp_all
  from group_medians_nonempty [OF this] show ?thesis
    by (simp add: corrected_at_52)
qed

lemma stub_six_mean:
  "mean_estimate [5822290115668182, 5822290115668182, 5822290115668182, 5822290115668182, 5822290115668182, 5822290115668182] =
     Inr (5822290115668183)"
proof -
  have s1: "float_add 0 (5822290115668182) = 5822290115668182"
  proof -
    have "float_add 0 (5822290115668182) = to_double (0 + 5822290115668182)"
      by (rule float_add_eval) (simp_all add: inf_double_def)
    also have "\<dots> = 5822290115668182"
      by (rule trans [OF to_double_eval [where e = 52]]) (simp_all add: round_half_even_def Let_def)
    finally show ?thesis .
  qed
  have s2: "float_add 5822290115668182 (5822290115668182) = 11644580231336364"
  proof -
    have "float_add 5822290115668182 (5822290115668182) = to_double (5822290115668182 + 5822290115668182)"
      by (rule float_add_eval) (simp_all add: inf_double_def)
    also have "\<dots> = 11644580231336364"
      by (rule trans [OF to_double_eval [where e = 53]]) (simp_all add: round_half_even_def Let_def)
    finally show ?thesis .
  qed
  have s3: "float_add 11644580231336364 (5822290115668182) = 17466870347004546"
  proof -
    have "float_add 11644580231336364 (5822290115668182) = to_double (11644580231336364 + 5822290115668182)"
      by (rule float_add_eval) (simp_all add: inf_double_def)
    also have "\<dots> = 17466870347004546"
      by (rule trans [OF to_double_eval [where e = 53]]) (simp_all add: round_half_even_def Let_def)
    finally show ?thesis .
  qed
  have s4: "float_add 17466870347004546 (5822290115668182) = 23289160462672728"
  proof -
    have "float_add 17466870347004546 (5822290115668182) = to_double (17466870347004546 + 5822290115668182)"
      by (rule float_add_eval) (simp_all add: inf_double_def)
    also have "\<dots> = 23289160462672728"
      by (rule trans [OF to_double_eval [where e = 54]]) (simp_all add: round_half_even_def Let_def)
    finally show ?thesis .
  qed
  have s5: "float_add 23289160462672728 (5822290115668182) = 29111450578340912"
  proof -
    have "float_add 23289160462672728 (5822290115668182) = to_double (23289160462672728 + 5822290115668182)"
      by (rule float_add_eval) (simp_all add: inf_double_def)
    also have "\<dots> = 29111450578340912"
      by (rule trans [OF to_double_eval [where e = 54]]) (simp_all add: round_half_even_def Let_def)
    finally show ?thesis .
  qed
  have s6: "float_add 29111450578340912 (5822290115668182) = 34933740694009096"
  proof -
    have "float_add 29111450578340912 (5822290115668182) = to_double (29111450578340912 + 5822290115668182)"
      by (rule float_add_eval) (simp_all add: inf_double_def)
    also have "\<dots> = 34933740694009096"
      by (rule trans [OF to_double_eval [where e = 54]]) (simp_all add: round_half_even_def Let_def)
    finally show ?thesis .
  qed
  have n: "to_double (real (length [5822290115668182, 5822290115668182, 5822290115668182, 5822290115668182, 5822290115668182, 5822290115668182])) = 6"
    using to_double_length [of 6] by simp
  have d: "float_div (34933740694009096) 6 = 5822290115668183"
  proof -
    have "float_div (34933740694009096) 6 = to_double (34933740694009096 / 6)"
      by (rule float_div_eval) (simp_all add: inf_double_def)
    also have "\<dots> = 5822290115668183"
      by (rule trans [OF to_double_eval [where e = 52]]) (simp_all add: round_half_even_def Let_def)
    finally show ?thesis .
  qed
  show ?thesis
    unfolding mean_estimate_def py_sum_def n
    by (simp add: s1 s2 s3 s4 s5 s6 d)
qed

lemma stub_six_estimate: "multiple_estimate_cardinality stub_six_state = Inr 5822290115668183"
proof -
  have p: "py_int (5822290115668183) = Inr 5822290115668183"
    by (simp add: py_int_def is_inf_def inf_double_def)
  have st: "phi stub_six_state = phi_global"
    "max_tail_length_m stub_six_state = [[52], [52], [52], [52], [52], [52]]"
    by (simp_all add: stub_six_state_def)
  show ?thesis
    unfolding multiple_estimate_cardinality_def st stub_six_medians stub_six_mean sum.case
    by (rule p)
qed

lemma stub_ten_medians:
  "group_medians phi_global [[0], [1], [2], [5], [9], [10], [11], [13], [15], [15]] =
     Inr [2911145057834091 / 2251799813685248, 2911145057834091 / 1125899906842624, 2911145057834091 / 562949953421312, 2911145057834091 / 70368744177664, 2911145057834091 / 4398046511104, 2911145057834091 / 2199023255552, 2911145057834091 / 1099511627776, 2911145057834091 / 274877906944, 2911145057834091 / 68719476736, 2911145057834091 / 68719476736]"
proof -
  have "[] \<notin> set [[0::nat], [1], [2], [5], [9], [10], [11], [13], [15], [15]]" "phi_global \<noteq> 0"
    "\<forall>grp\<in>set [[0::nat], [1], [2], [5], [9], [10], [11], [13], [15], [15]]. \<forall>r\<in>set grp. r < 1024"
    using phi_global_bounds(3) by simp_all
  from group_medians_nonempty [OF this] show ?thesis
    by (simp add: corrected_at_0 corrected_at_1 corrected_at_2 corrected_at_5 corrected_at_9 corrected_at_10 corrected_at_11 corrected_at_13 corrected_at_15)
qed

lemma stub_ten_mean:
  "mean_estimate [2911145057834091 / 2251799813685248, 2911145057834091 / 1125899906842624, 2911145057834091 / 562949953421312, 2911145057834091 / 70368744177664, 2911145057834091 / 4398046511104, 2911145057834091 / 2199023255552, 2911145057834091 / 1099511627776, 2911145057834091 / 274877906944, 2911145057834091 / 68719476736, 2911145057834091 / 68719476736] =
     Inr (5497558138879999 / 549755813888)"
proof -
  have s1: "float_add 0 (2911145057834091 / 2251799813685248) = 2911145057834091 / 2251799813685248"
  proof -
    have "float_add 0 (2911145057834091 / 2251799813685248) = to_double (0 + 2911145057834091 / 2251799813685248)"
      by (rule float_add_eval) (simp_all add: inf_double_def)
    also have "\<dots> = 2911145057834091 / 2251799813685248"
      by (rule trans [OF to_double_eval [where e = 0]]) (simp_all add: round_half_even_def Let_def)
    finally show ?thesis .
  qed
  have s2: "float_add (2911145057834091 / 2251799813685248) (2911145057834091 / 1125899906842624) = 8733435173502273 / 2251799813685248"
  proof -
    have "float_add (2911145057834091 / 2251799813685248) (2911145057834091 / 1125899906842624) = to_double ((2911145057834091 / 2251799813685248) + 2911145057834091 / 1125899906842624)"
      by (rule float_add_eval) (simp_all add: inf_double_def)
    also have "\<dots> = 8733435173502273 / 2251799813685248"
      by (rule trans [OF to_double_eval [where e = 1]]) (simp_all add: round_half_even_def Let_def)
    finally show ?thesis .
  qed
  have s3: "float_add (8733435173502273 / 2251799813685248) (2911145057834091 / 562949953421312) = 5094503851209659 / 562949953421312"
  proof -
    have "float_add (8733435173502273 / 2251799813685248) (2911145057834091 / 562949953421312) = to_double ((8733435173502273 / 2251799813685248) + 2911145057834091 / 562949953421312)"
      by (rule float_add_eval) (simp_all add: inf_double_def)
    also have "\<dots> = 5094503851209659 / 562949953421312"
      by (rule trans [OF to_double_eval [where e = 3]]) (simp_all add: round_half_even_def Let_def)
    finally show ?thesis .
  qed
  have s4: "float_add (5094503851209659 / 562949953421312) (2911145057834091 / 70368744177664) = 7095916078470597 / 140737488355328"
  proof -
    have "float_add (5094503851209659 / 562949953421312) (2911145057834091 / 70368744177664) = to_double ((5094503851209659 / 562949953421312) + 2911145057834091 / 70368744177664)"
      by (rule float_add_eval) (simp_all add: inf_double_def)
    also have "\<dots> = 7095916078470597 / 140737488355328"
      by (rule trans [OF to_double_eval [where e = 5]]) (simp_all add: round_half_even_def Let_def)
    finally show ?thesis .
  qed
  have s5: "float_add (7095916078470597 / 140737488355328) (2911145057834091 / 4398046511104) = 3132892435286297 / 4398046511104"
  proof -
    have "float_add (7095916078470597 / 140737488355328) (2911145057834091 / 4398046511104) = to_double ((7095916078470597 / 140737488355328) + 2911145057834091 / 4398046511104)"
      by (rule float_add_eval) (simp_all add: inf_double_def)
    also have "\<dots> = 3132892435286297 / 4398046511104"
      by (rule trans [OF to_double_eval [where e = 9]]) (simp_all add: round_half_even_def Let_def)
    finally show ?thesis .
  qed
  have s6: "float_add (3132892435286297 / 4398046511104) (2911145057834091 / 2199023255552) = 8955182550954479 / 4398046511104"
  proof -
    have "float_add (3132892435286297 / 4398046511104) (2911145057834091 / 2199023255552) = to_double ((3132892435286297 / 4398046511104) + 2911145057834091 / 2199023255552)"
      by (rule float_add_eval) (simp_all add: inf_double_def)
    also have "\<dots> = 8955182550954479 / 4398046511104"
      by (rule trans [OF to_double_eval [where e = 10]]) (simp_all add: round_half_even_def Let_def)
    finally show ?thesis .
  qed
  have s7: "float_add (8955182550954479 / 4398046511104) (2911145057834091 / 1099511627776) = 5149940695572711 / 1099511627776"
  proof -
    have "float_add (8955182550954479 / 4398046511104) (2911145057834091 / 1099511627776) = to_double ((8955182550954479 / 4398046511104) + 2911145057834091 / 1099511627776)"
      by (rule float_add_eval) (simp_all add: inf_double_def)
    also have "\<dots> = 5149940695572711 / 1099511627776"
      by (rule trans [OF to_double_eval [where e = 12]]) (simp_all add: round_half_even_def Let_def)
    finally show ?thesis .
  qed
  have s8: "float_add (5149940695572711 / 1099511627776) (2911145057834091 / 274877906944) = 4198630231727269 / 274877906944"
  proof -
    have "float_add (5149940695572711 / 1099511627776) (2911145057834091 / 274877906944) = to_double ((5149940695572711 / 1099511627776) + 2911145057834091 / 274877906944)"
      by (rule float_add_eval) (simp_all add: inf_double_def)
    also have "\<dots> = 4198630231727269 / 274877906944"
      by (rule trans [OF to_double_eval [where e = 13]]) (simp_all add: round_half_even_def Let_def)
    finally show ?thesis .
  qed
  have s9: "float_add (4198630231727269 / 274877906944) (2911145057834091 / 68719476736) = 990200653941477 / 17179869184"
  proof -
    have "float_add (4198630231727269 / 274877906944) (2911145057834091 / 68719476736) = to_double ((4198630231727269 / 274877906944) + 2911145057834091 / 68719476736)"
      by (rule float_add_eval) (simp_all add: inf_double_def)
    also have "\<dots> = 990200653941477 / 17179869184"
      by (rule trans [OF to_double_eval [where e = 15]]) (simp_all add: round_half_even_def Let_def)
    finally show ?thesis .
  qed
  have s10: "float_add (990200653941477 / 17179869184) (2911145057834091 / 68719476736) = 6871947673599999 / 68719476736"
  proof -
    have "float_add (990200653941477 / 17179869184) (2911145057834091 / 68719476736) = to_double ((990200653941477 / 17179869184) + 2911145057834091 / 68719476736)"
      by (rule float_add_eval) (simp_all add: inf_double_def)
    also have "\<dots> = 6871947673599999 / 68719476736"
      by (rule trans [OF to_double_eval [where e = 16]]) (simp_all add: round_half_even_def Let_def)
    finally show ?thesis .
  qed
  have n: "to_double (real (length [2911145057834091 / 2251799813685248, 2911145057834091 / 1125899906842624, 2911145057834091 / 562949953421312, 2911145057834091 / 70368744177664, 2911145057834091 / 4398046511104, 2911145057834091 / 2199023255552, 2911145057834091 / 1099511627776, 2911145057834091 / 274877906944, 2911145057834091 / 68719476736, 2911145057834091 / 68719476736])) = 10"
    using to_double_length [of 10] by simp
  have d: "float_div (6871947673599999 / 68719476736) 10 = 5497558138879999 / 549755813888"
  proof -
    have "float_div (6871947673599999 / 68719476736) 10 = to_double (6871947673599999 / 68719476736 / 10)"
      by (rule float_div_eval) (simp_all add: inf_double_def)
    also have "\<dots> = 5497558138879999 / 549755813888"
      by (rule trans [OF to_double_eval [where e = 13]]) (simp_all add: round_half_even_def Let_def)
    finally show ?thesis .
  qed
  show ?thesis
    unfolding mean_estimate_def py_sum_def n
    by (simp add: s1 s2 s3 s4 s5 s6 s7 s8 s9 s10 d)
qed

lemma stub_ten_estimate: "multiple_estimate_cardinality stub_ten_state = Inr 9999"
proof -
  have p: "py_int (5497558138879999 / 549755813888) = Inr 9999"
    by (simp add: py_int_def is_inf_def inf_double_def)
  have st: "phi stub_ten_state = phi_global"
    "max_tail_length_m stub_ten_state = [[0], [1], [2], [5], [9], [10], [11], [13], [15], [15]]"
    by (simp_all add: stub_ten_state_def)
  show ?thesis
    unfolding multiple_estimate_cardinality_def st stub_ten_medians stub_ten_mean sum.case
    by (rule p)
qed


lemma stub_pair_spec: "spec_estimate_cardinality stub_pair_state = Inr 5"
proof -
  have l: "lower_middle [float_div 4 phi_global, float_div 8 phi_global] = float_div 4 phi_global"
    by (simp add: lower_middle_def corrected_at_2 corrected_at_3)
  have d: "to_double (float_div 4 phi_global) = float_div 4 phi_global"
    using corrected_value_bounds(3) [of 2] by simp
  have f: "\<not> is_inf (float_div 4 phi_global)"
    by (simp add: corrected_at_2 is_inf_def inf_double_def)
  have m: "float_div (py_sum [float_div 4 phi_global]) (to_double 1) = float_div 4 phi_global"
    by (simp add: py_sum_def float_add_zero float_div_one f d)
  have p: "py_int (float_div 4 phi_global) = Inr 5"
    by (simp add: corrected_at_2 py_int_def is_inf_def inf_double_def)
  show ?thesis
    by (simp add: spec_estimate_cardinality_def stub_pair_state_def l m p)
qed

text \<open>
  The theorem of \<^bold>\<open>C2\<close> at two states. In the state with the one group
  \<open>[2, 3]\<close>, which a fresh instance reaches by processing one value, the corrected
  values are about 5.17 and 10.34, the median taken is the upper one and the estimate is
  10. In the state with ten groups the medians sum to the double 99999.99999999999
  and the estimate is 9999.
\<close>

theorem estimate_cardinality_upper_middle_witness:
  "wf_multiple stub_pair_state \<and> 0 < num_groups stub_pair_state \<and>
   0 < hashes_per_group stub_pair_state \<and> phi stub_pair_state = phi_global \<and>
   cells_below 128 stub_pair_state \<and>
   multiple_estimate_cardinality stub_pair_state = Inr 10 \<and>
   upper_medians phi_global [[2, 3]] = [float_div (2 ^ 3) phi_global] \<and>
   \<lfloor>float_div (py_sum [float_div (2 ^ 3) phi_global]) (to_double (real (nat 1)))\<rfloor> = 10 \<and>
   wf_multiple stub_ten_state \<and> 0 < num_groups stub_ten_state \<and>
   0 < hashes_per_group stub_ten_state \<and> phi stub_ten_state = phi_global \<and>
   cells_below 128 stub_ten_state \<and>
   multiple_estimate_cardinality stub_ten_state = Inr 9999"
proof -
  have h: "wf_multiple stub_pair_state" "0 < num_groups stub_pair_state"
    "0 < hashes_per_group stub_pair_state" "phi stub_pair_state = phi_global"
    "cells_below 128 stub_pair_state"
    by (simp_all add: stub_pair_wf) (simp_all add: stub_pair_state_def cells_below_def)
  have t: "wf_multiple stub_ten_state" "0 < num_groups stub_ten_state"
    "0 < hashes_per_group stub_ten_state" "phi stub_ten_state = phi_global"
    "cells_below 128 stub_ten_state"
    by (simp_all add: stub_ten_wf) (simp_all add: stub_ten_state_def cells_below_def)
  have u: "upper_medians phi_global [[2, 3]] = [float_div (2 ^ 3) phi_global]"
    by (simp add: upper_medians_def upper_middle_def corrected_at_2 corrected_at_3)
  from estimate_cardinality_upper_middle [OF h] stub_pair_estimate
  have "\<lfloor>float_div (py_sum [float_div (2 ^ 3) phi_global]) (to_double (real (nat 1)))\<rfloor> = 10"
    by (simp add: stub_pair_state_def u)
  moreover from estimate_cardinality_upper_middle [OF t]
  have "multiple_estimate_cardinality stub_ten_state = Inr 9999"
    by (simp only: stub_ten_estimate)
  ultimately show ?thesis using h t u stub_pair_estimate by blast
qed

text \<open>
  The claim \<^bold>\<open>C2\<close> as stated fails in the state that a fresh instance with one
  group of two hashes reaches by processing one value: the code returns 10, the
  truncated mean of the lower-middle elements is 5.
\<close>

theorem estimate_cardinality_not_lower_middle:
  "multiple_process_all stub_hash128 (multiple_init stub_randint 1 2) [''a'']
     = Inr stub_pair_state \<and>
   multiple_estimate_cardinality stub_pair_state = Inr 10 \<and>
   spec_estimate_cardinality stub_pair_state = Inr 5 \<and>
   multiple_estimate_cardinality stub_pair_state
     \<noteq> spec_estimate_cardinality stub_pair_state"
  by (simp add: stub_pair_run stub_pair_estimate stub_pair_spec)

text \<open>
  The theorem of \<^bold>\<open>C8\<close> at the state with the two groups \<open>[2]\<close> and
  \<open>[3]\<close>, which a fresh instance reaches by processing one value: the medians are
  about 5.17 and 10.34, their mean is about 7.76 and the estimate is 7.
\<close>

theorem estimate_truncated_median_bound_witness:
  "wf_multiple stub_two_state \<and> 0 < num_groups stub_two_state \<and>
   num_groups stub_two_state \<le> 2 ^ 53 \<and>
   0 < hashes_per_group stub_two_state \<and> phi stub_two_state = phi_global \<and>
   cells_below 128 stub_two_state \<and>
   group_medians (phi stub_two_state) (max_tail_length_m stub_two_state) = Inr [2911145057834091 / 562949953421312, 2911145057834091 / 281474976710656] \<and>
   Min (set [2911145057834091 / 562949953421312, 2911145057834091 / 281474976710656 :: real]) < Max (set [2911145057834091 / 562949953421312, 2911145057834091 / 281474976710656]) \<and>
   multiple_estimate_cardinality stub_two_state = Inr 7 \<and>
   (\<exists>ms m e. group_medians (phi stub_two_state) (max_tail_length_m stub_two_state) = Inr ms \<and>
      length ms = nat (num_groups stub_two_state) \<and>
      mean_estimate ms = Inr m \<and>
      multiple_estimate_cardinality stub_two_state = Inr e \<and> e = \<lfloor>m\<rfloor> \<and>
      Min (set ms) * (1 - 1 / 2 ^ 53) ^ length ms \<le> m \<and>
      m \<le> Max (set ms) * (1 + 1 / 2 ^ 53) ^ length ms \<and>
      Min (set ms) * (1 - 1 / 2 ^ 53) ^ length ms < real_of_int e + 1 \<and>
      real_of_int e \<le> Max (set ms) * (1 + 1 / 2 ^ 53) ^ length ms)"
proof -
  have h: "wf_multiple stub_two_state" "0 < num_groups stub_two_state"
    "num_groups stub_two_state \<le> 2 ^ 53"
    "0 < hashes_per_group stub_two_state" "phi stub_two_state = phi_global"
    "cells_below 128 stub_two_state"
    by (simp_all add: stub_two_wf) (simp_all add: stub_two_state_def cells_below_def)
  have g: "group_medians (phi stub_two_state) (max_tail_length_m stub_two_state) = Inr [2911145057834091 / 562949953421312, 2911145057834091 / 281474976710656]"
    by (simp add: stub_two_state_def stub_two_medians del: group_medians.simps)
  have "Min (set [2911145057834091 / 562949953421312, 2911145057834091 / 281474976710656 :: real]) < Max (set [2911145057834091 / 562949953421312, 2911145057834091 / 281474976710656])"
    by simp
  with estimate_truncated_median_bound [OF h] h g stub_two_estimate show ?thesis by blast
qed

text \<open>
  The claim \<^bold>\<open>C8\<close> as stated fails on both sides. A fresh instance with one group
  of one hash has the one group median \<open>1 / phi\<close>, about 1.29, and returns 1, below
  the minimum of the group medians. In the state with six groups whose cells hold 52 all
  group medians are 5822290115668182; their sum in double arithmetic rounds up twice and
  the estimate returned is 5822290115668183, above the maximum of the group medians.
\<close>

theorem estimate_below_min_median:
  "group_medians (phi (multiple_init stub_randint 1 1))
     (max_tail_length_m (multiple_init stub_randint 1 1)) = Inr [2911145057834091 / 2251799813685248] \<and>
   multiple_estimate_cardinality (multiple_init stub_randint 1 1) = Inr 1 \<and>
   real_of_int 1 < Min (set [2911145057834091 / 2251799813685248]) \<and>
   group_medians (phi stub_six_state) (max_tail_length_m stub_six_state)
     = Inr [5822290115668182, 5822290115668182, 5822290115668182, 5822290115668182, 5822290115668182, 5822290115668182] \<and>
   multiple_estimate_cardinality stub_six_state = Inr 5822290115668183 \<and>
   Max (set [5822290115668182, 5822290115668182, 5822290115668182, 5822290115668182, 5822290115668182, 5822290115668182]) < real_of_int 5822290115668183"
  by (simp add: fresh_single_estimate stub_six_estimate)
     (simp add: multiple_init_def stub_six_state_def fresh_single_medians stub_six_medians
        del: group_medians.simps)

subsection \<open>One group of one hash against the simple estimator\<close>

lemma simple_process_all_max:
  "max_tail_length (simple_process_all sha s vs) =
     Max (insert (max_tail_length s) ((\<lambda>v. tail_length (simple_hash sha v)) ` set vs))"
proof (induction vs arbitrary: s)
  case Nil
  then show ?case by (simp add: simple_process_all_def)
next
  case (Cons v vs)
  let ?f = "\<lambda>v. tail_length (simple_hash sha v)"
  have "max_tail_length (simple_process_all sha s (v # vs)) =
      max_tail_length (simple_process_all sha (simple_process sha s v) vs)"
    by (simp add: simple_process_all_def)
  also have "\<dots> = Max (insert (max (max_tail_length s) (?f v)) (?f ` set vs))"
    by (simp add: Cons.IH simple_process_def)
  also have "\<dots> = Max (insert (max_tail_length s) (insert (?f v) (?f ` set vs)))"
    by (rule Max_insert_max) simp
  finally show ?case by simp
qed

lemma single_cell_matrix:
  assumes "length m = 1" "length (m ! 0) = 1"
  shows "m = [[m ! 0 ! 0]]"
proof -
  from assms(1) obtain r where m: "m = [r]" by (cases m) auto
  with assms(2) obtain c where "r = [c]" by (cases r) auto
  with m show ?thesis by simp
qed

lemma single_median_estimate:
  assumes "t < 128"
  shows "upper_medians phi_global [[t]] = [float_div (2 ^ t) phi_global]"
    "float_div (py_sum [float_div (2 ^ t) phi_global]) (to_double (real (nat 1)))
       = float_div (2 ^ t) phi_global"
    "caller_corrected (2 ^ t) = Inr \<lfloor>float_div (2 ^ t) phi_global\<rfloor>"
proof -
  let ?x = "float_div (2 ^ t) phi_global"
  note b = corrected_value_bounds [OF assms]
  have fin: "?x < inf_double" using b(2) by (simp add: inf_double_def)
  have nn: "0 \<le> ?x" using b(1) by simp
  from nn fin have ni: "\<not> is_inf ?x" by (rule not_is_inf)
  show "upper_medians phi_global [[t]] = [?x]"
    by (simp add: upper_medians_def upper_middle_def)
  show "float_div (py_sum [?x]) (to_double (real (nat 1))) = ?x"
    by (simp add: py_sum_def float_add_zero [OF ni b(3)] float_div_one [OF ni b(3)])
  from assms have "t < 1024" by simp
  then show "caller_corrected (2 ^ t) = Inr \<lfloor>?x\<rfloor>"
    by (simp add: caller_corrected_power2 py_int_finite [OF nn fin])
qed

text \<open>
  \<^bold>\<open>C9\<close>, as the code has it. The two classes use different hash functions (SHA-256
  without a seed, \<^verbatim>\<open>mmh3.hash128\<close> with a drawn seed), and only the grouped class
  divides by \<open>phi\<close>. If the two hashes of every processed value have the same tail
  length, then an instance with one group of one hash holds, after the same stream, the
  maximal tail length of the simple estimator in its single cell, and its estimate is the
  value that the corrected form \<^verbatim>\<open>int(e / phi)\<close> of the simple estimate \<open>e\<close>
  yields; neither raises.
\<close>

theorem grouped_1_1_vs_simple:
  assumes "\<forall>v\<in>set vs. tail_length (multiple_hash hf v (rnd 0)) = tail_length (simple_hash sha v)"
  shows "\<exists>s e. multiple_process_all hf (multiple_init rnd 1 1) vs = Inr s \<and>
           max_tail_length_m s = [[max_tail_length (simple_process_all sha simple_init vs)]] \<and>
           multiple_estimate_cardinality s = Inr e \<and>
           caller_corrected
               (simple_estimate_cardinality (simple_process_all sha simple_init vs)) = Inr e"
proof -
  let ?s0 = "multiple_init rnd 1 1"
  let ?t = "max_tail_length (simple_process_all sha simple_init vs)"
  have G: "nat (num_groups ?s0) = 1" and H: "nat (hashes_per_group ?s0) = 1"
    by (simp_all add: multiple_init_def)
  from multiple_process_all_cells [where hf = hf and vs = vs, OF multiple_init_wf [of rnd 1 1]]
  obtain s where s: "multiple_process_all hf ?s0 vs = Inr s" "wf_multiple s" "same_frame ?s0 s"
    and c: "\<And>g i. g < nat (num_groups ?s0) \<Longrightarrow> i < nat (hashes_per_group ?s0) \<Longrightarrow>
        cell s g i = Max (insert (cell ?s0 g i) ((\<lambda>v. tz_at hf v ?s0 g i) ` set vs))"
    by auto
  have tz: "tz_at hf v ?s0 0 0 = tail_length (multiple_hash hf v (rnd 0))" for v
    by (simp add: tz_at_def multiple_init_def)
  have img: "(\<lambda>v. tz_at hf v ?s0 0 0) ` set vs = (\<lambda>v. tail_length (simple_hash sha v)) ` set vs"
    using assms by (auto simp: tz image_iff)
  have "cell s 0 0 = Max (insert (cell ?s0 0 0) ((\<lambda>v. tz_at hf v ?s0 0 0) ` set vs))"
    by (rule c) (simp_all add: G H)
  also have "cell ?s0 0 0 = 0" by (simp add: cell_def multiple_init_def)
  finally have cell: "cell s 0 0 = ?t"
    by (simp add: img simple_process_all_max simple_init_def)
  from s(2,3) have "length (max_tail_length_m s) = 1" "length (max_tail_length_m s ! 0) = 1"
    by (simp_all add: wf_multiple_def same_frame_def multiple_init_def)
  from single_cell_matrix [OF this] cell have m: "max_tail_length_m s = [[?t]]"
    by (simp add: cell_def)
  from s(3) have f: "num_groups s = 1" "hashes_per_group s = 1" "phi s = phi_global"
    by (simp_all add: same_frame_def multiple_init_def)
  note cb = multiple_reachable_cells [OF s(1)]
  then have t: "?t < 128" by (simp add: cells_below_def m)
  note sm = single_median_estimate [OF t]
  have pos: "0 < num_groups s" "0 < hashes_per_group s" by (simp_all add: f)
  from multiple_estimate_value(5) [OF s(2) pos f(3) cb]
  have "multiple_estimate_cardinality s = Inr \<lfloor>float_div (2 ^ ?t) phi_global\<rfloor>"
    by (simp only: m f sm)
  moreover have "caller_corrected
      (simple_estimate_cardinality (simple_process_all sha simple_init vs))
      = Inr \<lfloor>float_div (2 ^ ?t) phi_global\<rfloor>"
    by (simp only: simple_estimate_cardinality_def sm(3))
  ultimately show ?thesis using s(1) m by blast
qed

text \<open>The theorem for the stubs, which agree on every value, and the stream a.\<close>

theorem grouped_1_1_vs_simple_witness:
  "tail_length (multiple_hash stub_hash128 ''a'' (stub_randint 0))
     = tail_length (simple_hash stub_sha256 ''a'') \<and>
   (\<exists>s e. multiple_process_all stub_hash128 (multiple_init stub_randint 1 1) [''a''] = Inr s \<and>
      max_tail_length_m s
        = [[max_tail_length (simple_process_all stub_sha256 simple_init [''a''])]] \<and>
      multiple_estimate_cardinality s = Inr e \<and>
      caller_corrected
          (simple_estimate_cardinality
             (simple_process_all stub_sha256 simple_init [''a''])) = Inr e)"
proof -
  have h: "\<forall>v\<in>set [''a'']. tail_length (multiple_hash stub_hash128 v (stub_randint 0))
      = tail_length (simple_hash stub_sha256 v)"
    by (simp add: multiple_hash_def simple_hash_def stub_hash128_def stub_sha256_def
        stub_randint_def)
  from grouped_1_1_vs_simple [of "[''a'']" stub_hash128 stub_randint stub_sha256] h
  show ?thesis by simp
qed

text \<open>
  The claim as stated fails for the stubs: after the same one-value stream both hold the
  maximal tail length 2, but the simple estimate is 4 and the grouped estimate is 5.
\<close>

theorem grouped_1_1_differs_from_simple:
  "multiple_process_all stub_hash128 (multiple_init stub_randint 1 1) [''a'']
     = Inr stub_single_state \<and>
   max_tail_length_m stub_single_state = [[2]] \<and>
   max_tail_length (simple_process_all stub_sha256 simple_init [''a'']) = 2 \<and>
   multiple_estimate_cardinality stub_single_state = Inr 5 \<and>
   simple_estimate_cardinality (simple_process_all stub_sha256 simple_init [''a'']) = 4 \<and>
   multiple_estimate_cardinality stub_single_state
     \<noteq> Inr (simple_estimate_cardinality
              (simple_process_all stub_sha256 simple_init [''a'']))"
  by (simp add: stub_single_run stub_single_estimate stub_simple_run
      simple_estimate_cardinality_def) (simp add: stub_single_state_def)

subsection \<open>Monotone state\<close>

lemma multiple_reachable_wf:
  "\<exists>t. multiple_process_all hf (multiple_init rnd ng hpg) vs = Inr t \<and> wf_multiple t \<and>
     num_groups t = ng \<and> hashes_per_group t = hpg \<and> phi t = phi_global"
proof -
  from multiple_process_all_cells [where hf = hf and vs = vs, OF multiple_init_wf [of rnd ng hpg]]
  obtain t where "multiple_process_all hf (multiple_init rnd ng hpg) vs = Inr t"
    "wf_multiple t" "same_frame (multiple_init rnd ng hpg) t" by auto
  then show ?thesis
    by (intro exI [of _ t]) (simp add: same_frame_def multiple_init_def)
qed

lemma simple_process_all_monotone:
  "max_tail_length s \<le> max_tail_length (simple_process_all sha s ws)"
  by (simp add: simple_process_all_max)

lemma multiple_process_all_monotone:
  assumes "wf_multiple t"
  shows "\<exists>t'. multiple_process_all hf t ws = Inr t' \<and>
           length (max_tail_length_m t') = length (max_tail_length_m t) \<and>
           (\<forall>g<length (max_tail_length_m t).
              length (max_tail_length_m t' ! g) = length (max_tail_length_m t ! g) \<and>
              (\<forall>i<length (max_tail_length_m t ! g).
                 max_tail_length_m t ! g ! i \<le> max_tail_length_m t' ! g ! i))"
proof -
  let ?G = "nat (num_groups t)" and ?H = "nat (hashes_per_group t)"
  from multiple_process_all_cells [where hf = hf and vs = ws, OF assms] obtain t' where
    t': "multiple_process_all hf t ws = Inr t'" "wf_multiple t'" "same_frame t t'"
    and c: "\<And>g i. g < ?G \<Longrightarrow> i < ?H \<Longrightarrow>
        cell t' g i = Max (insert (cell t g i) ((\<lambda>v. tz_at hf v t g i) ` set ws))"
    by auto
  from assms have l: "length (max_tail_length_m t) = ?G"
    and r: "\<And>g. g < ?G \<Longrightarrow> length (max_tail_length_m t ! g) = ?H"
    by (simp_all add: wf_multiple_def)
  from t'(2,3) have l': "length (max_tail_length_m t') = ?G"
    and r': "\<And>g. g < ?G \<Longrightarrow> length (max_tail_length_m t' ! g) = ?H"
    by (simp_all add: wf_multiple_def same_frame_def)
  have "max_tail_length_m t ! g ! i \<le> max_tail_length_m t' ! g ! i"
    if "g < ?G" "i < ?H" for g i
  proof -
    have "cell t g i \<le> Max (insert (cell t g i) ((\<lambda>v. tz_at hf v t g i) ` set ws))"
      by (rule Max_ge) simp_all
    with c [OF that] show ?thesis by (simp add: cell_def)
  qed
  with t'(1) l l' r r' show ?thesis
    by (intro exI [of _ t']) simp
qed

lemma bloom_add_all_monotone:
  "bloom_add_all hfn b ws = Inr b' \<Longrightarrow>
     length (bit_array b') = length (bit_array b) \<and>
     (\<forall>k<length (bit_array b). bit_array b ! k \<longrightarrow> bit_array b' ! k)"
proof (induction ws arbitrary: b)
  case Nil
  then show ?case by (simp add: bloom_add_all_def)
next
  case (Cons w ws)
  from Cons.prems obtain b1 where b1: "bloom_add hfn b w = Inr b1"
    and rest: "bloom_add_all hfn b1 ws = Inr b'"
    by (auto simp: bloom_add_all_def split: sum.splits)
  from bloom_add_frame [OF b1] Cons.IH [OF rest] show ?case by simp
qed

text \<open>
  \<^bold>\<open>C3\<close>. Processing a further stream \<open>ws\<close> (one value for a single call)
  never decreases \<^verbatim>\<open>max_tail_length\<close> of a \<^verbatim>\<open>FlajoletMartinSimple\<close>. For a
  \<^verbatim>\<open>FlajoletMartinMultiple\<close> instance, however constructed and after any stream
  \<open>vs\<close>, processing \<open>ws\<close> returns, keeps the shape of the matrix and decreases
  no cell. \<^verbatim>\<open>BloomFilter.add\<close> calls that return keep the length of the bit array
  and every bit that was set; \<^verbatim>\<open>query\<close> has no effect on the state.
\<close>

theorem sketch_state_monotone:
  "max_tail_length s \<le> max_tail_length (simple_process_all sha s ws) \<and>
   (\<exists>t t'. multiple_process_all hf (multiple_init rnd ng hpg) vs = Inr t \<and>
      multiple_process_all hf t ws = Inr t' \<and>
      length (max_tail_length_m t') = length (max_tail_length_m t) \<and>
      (\<forall>g<length (max_tail_length_m t).
         length (max_tail_length_m t' ! g) = length (max_tail_length_m t ! g) \<and>
         (\<forall>i<length (max_tail_length_m t ! g).
            max_tail_length_m t ! g ! i \<le> max_tail_length_m t' ! g ! i))) \<and>
   (bloom_add_all hfn b ws = Inr b' \<longrightarrow>
      length (bit_array b') = length (bit_array b) \<and>
      (\<forall>k<length (bit_array b). bit_array b ! k \<longrightarrow> bit_array b' ! k))"
proof (intro conjI)
  show "max_tail_length s \<le> max_tail_length (simple_process_all sha s ws)"
    by (rule simple_process_all_monotone)
next
  from multiple_reachable_wf [of hf rnd ng hpg vs]
  obtain t where t: "multiple_process_all hf (multiple_init rnd ng hpg) vs = Inr t"
    "wf_multiple t" by auto
  from multiple_process_all_monotone [where hf = hf and ws = ws, OF t(2)] t(1)
  show "\<exists>t t'. multiple_process_all hf (multiple_init rnd ng hpg) vs = Inr t \<and>
      multiple_process_all hf t ws = Inr t' \<and>
      length (max_tail_length_m t') = length (max_tail_length_m t) \<and>
      (\<forall>g<length (max_tail_length_m t).
         length (max_tail_length_m t' ! g) = length (max_tail_length_m t ! g) \<and>
         (\<forall>i<length (max_tail_length_m t ! g).
            max_tail_length_m t ! g ! i \<le> max_tail_length_m t' ! g ! i))"
    by blast
next
  show "bloom_add_all hfn b ws = Inr b' \<longrightarrow>
      length (bit_array b') = length (bit_array b) \<and>
      (\<forall>k<length (bit_array b). bit_array b ! k \<longrightarrow> bit_array b' ! k)"
    using bloom_add_all_monotone [of hfn b ws b'] by blast
qed

lemma replicate_eight: "replicate 8 x = [x, x, x, x, x, x, x, x]"
  by (simp add: eval_nat_numeral)

lemma stub_bloom_first:
  "\<exists>b. bloom_init 8 3 = Inr b \<and> bloom_add stub_hash64 b ''a'' = Inr stub_bloom_a"
  by (simp add: bloom_init_def bloom_add_def bloom_hashes_def set_bit_at_def py_index_def
      stub_hash64_def stub_bloom_a_def upt_rec replicate_eight)

lemma stub_bloom_second: "bloom_add stub_hash64 stub_bloom_a ''bb'' = Inr stub_bloom_ab"
  by (simp add: bloom_add_def bloom_hashes_def set_bit_at_def py_index_def
      stub_hash64_def stub_bloom_a_def stub_bloom_ab_def upt_rec)

lemma stub_bloom_stream: "bloom_add_all stub_hash64 stub_bloom_a [''bb''] = Inr stub_bloom_ab"
  by (simp add: bloom_add_all_def stub_bloom_second)

lemma stub_pair_again:
  "multiple_process_all stub_hash128 stub_pair_state [''bb''] = Inr stub_pair_state"
  by (simp add: multiple_process_all_def multiple_process_def process_group_def update_cell_def
      py_index_def multiple_hash_def stub_hash128_def
      stub_pair_state_def tail_length_4 tail_length_8 upt_rec)

text \<open>
  The theorem for the stubs: a simple estimator processing one value, a grouped instance
  with one group of two hashes, and the 8-bit filter that holds a and receives bb, whose
  bit 7 stays set.
\<close>

theorem sketch_state_monotone_witness:
  "max_tail_length simple_init
     \<le> max_tail_length (simple_process_all stub_sha256 simple_init [''bb'']) \<and>
   max_tail_length (simple_process_all stub_sha256 simple_init [''bb'']) = 2 \<and>
   (\<exists>t t'. multiple_process_all stub_hash128 (multiple_init stub_randint 1 2) [''a''] = Inr t \<and>
      multiple_process_all stub_hash128 t [''bb''] = Inr t' \<and>
      length (max_tail_length_m t') = length (max_tail_length_m t)) \<and>
   bloom_add_all stub_hash64 stub_bloom_a [''bb''] = Inr stub_bloom_ab \<and>
   length (bit_array stub_bloom_ab) = length (bit_array stub_bloom_a) \<and>
   bit_array stub_bloom_a ! 7 \<and> bit_array stub_bloom_ab ! 7"
proof -
  note inst = sketch_state_monotone [where s = simple_init and sha = stub_sha256
      and ws = "[''bb'']" and hf = stub_hash128 and rnd = stub_randint and ng = 1 and hpg = 2
      and vs = "[''a'']" and hfn = stub_hash64 and b = stub_bloom_a and b' = stub_bloom_ab]
  have a: "bit_array stub_bloom_a ! 7" "7 < length (bit_array stub_bloom_a)"
    by (simp_all add: stub_bloom_a_def)
  have e: "max_tail_length (simple_process_all stub_sha256 simple_init [''bb'']) = 2"
    by (simp add: simple_process_all_def simple_process_def simple_init_def simple_hash_def
        stub_sha256_def tail_length_4)
  from inst have 1: "max_tail_length simple_init
      \<le> max_tail_length (simple_process_all stub_sha256 simple_init [''bb''])" by blast
  from inst have 2: "\<exists>t t'. multiple_process_all stub_hash128 (multiple_init stub_randint 1 2) [''a''] = Inr t \<and>
      multiple_process_all stub_hash128 t [''bb''] = Inr t' \<and>
      length (max_tail_length_m t') = length (max_tail_length_m t)" by blast
  from inst stub_bloom_stream
  have 3: "length (bit_array stub_bloom_ab) = length (bit_array stub_bloom_a)"
    and 4: "\<forall>k<length (bit_array stub_bloom_a).
        bit_array stub_bloom_a ! k \<longrightarrow> bit_array stub_bloom_ab ! k"
    by blast+
  from 4 a have "bit_array stub_bloom_ab ! 7" by blast
  with 1 2 3 a e stub_bloom_stream show ?thesis by blast
qed

subsection \<open>Order of the stream\<close>

text \<open>
  \<^bold>\<open>C4\<close>. Two streams with the same set of values (two orderings of one multiset in
  particular, or a stream and the same stream with duplicates) leave a simple estimator,
  started in any state, with the same estimate; and they leave a grouped instance,
  constructed with the same parameters and seeds, in the same state and so with the same
  result of \<^verbatim>\<open>estimate_cardinality\<close>, which is an estimate rather than an exception
  when both parameters are positive.
\<close>

theorem estimate_order_invariant:
  assumes "set xs = set ys"
  shows "simple_estimate_cardinality (simple_process_all sha s xs)
           = simple_estimate_cardinality (simple_process_all sha s ys) \<and>
         (\<exists>t1 t2. multiple_process_all hf (multiple_init rnd ng hpg) xs = Inr t1 \<and>
            multiple_process_all hf (multiple_init rnd ng hpg) ys = Inr t2 \<and> t1 = t2 \<and>
            multiple_estimate_cardinality t1 = multiple_estimate_cardinality t2 \<and>
            (0 < ng \<and> 0 < hpg \<longrightarrow> (\<exists>e. multiple_estimate_cardinality t1 = Inr e)))"
proof
  show "simple_estimate_cardinality (simple_process_all sha s xs)
      = simple_estimate_cardinality (simple_process_all sha s ys)"
    using assms by (simp add: simple_estimate_cardinality_def simple_process_all_max)
next
  let ?s0 = "multiple_init rnd ng hpg"
  from multiple_process_all_set [where hf = hf, OF multiple_init_wf [of rnd ng hpg] assms]
  obtain t where t: "multiple_process_all hf ?s0 xs = Inr t"
    "multiple_process_all hf ?s0 ys = Inr t" "wf_multiple t" "same_frame ?s0 t"
    by auto
  have "\<exists>e. multiple_estimate_cardinality t = Inr e" if pos: "0 < ng \<and> 0 < hpg"
  proof -
    from t(4) have f: "num_groups t = ng" "hashes_per_group t = hpg" "phi t = phi_global"
      by (simp_all add: same_frame_def multiple_init_def)
    from pos f have "0 < num_groups t" "0 < hashes_per_group t" by simp_all
    from multiple_estimate_value(5) [OF t(3) this f(3) multiple_reachable_cells [OF t(1)]]
    show ?thesis by blast
  qed
  with t(1,2) show "\<exists>t1 t2. multiple_process_all hf ?s0 xs = Inr t1 \<and>
      multiple_process_all hf ?s0 ys = Inr t2 \<and> t1 = t2 \<and>
      multiple_estimate_cardinality t1 = multiple_estimate_cardinality t2 \<and>
      (0 < ng \<and> 0 < hpg \<longrightarrow> (\<exists>e. multiple_estimate_cardinality t1 = Inr e))"
    by blast
qed

text \<open>
  The theorem for the stubs and the streams a, b, a, c and c, b, a, from a fresh simple
  estimator and a fresh grouped instance with one group of two hashes.
\<close>

theorem estimate_order_invariant_witness:
  "set [''a'', ''b'', ''a'', ''c''] = set [''c'', ''b'', ''a''] \<and>
   simple_estimate_cardinality
       (simple_process_all stub_sha256 simple_init [''a'', ''b'', ''a'', ''c''])
     = simple_estimate_cardinality
         (simple_process_all stub_sha256 simple_init [''c'', ''b'', ''a'']) \<and>
   (\<exists>t1 t2. multiple_process_all stub_hash128 (multiple_init stub_randint 1 2)
                [''a'', ''b'', ''a'', ''c''] = Inr t1 \<and>
      multiple_process_all stub_hash128 (multiple_init stub_randint 1 2)
                [''c'', ''b'', ''a''] = Inr t2 \<and> t1 = t2 \<and>
      multiple_estimate_cardinality t1 = multiple_estimate_cardinality t2 \<and>
      (\<exists>e. multiple_estimate_cardinality t1 = Inr e))"
proof -
  have h: "set [''a'', ''b'', ''a'', ''c''] = set [''c'', ''b'', ''a'']" by auto
  from estimate_order_invariant [OF h, of stub_sha256 simple_init stub_hash128 stub_randint 1 2] h
  show ?thesis by simp
qed

subsection \<open>Construction\<close>

text \<open>
  What instances with non-positive parameters do after their construction: with no
  groups \<^verbatim>\<open>estimate_cardinality\<close> divides by zero, with groups of no hashes it
  indexes an empty list; a filter of size zero divides by zero in \<^verbatim>\<open>add\<close>, and
  a filter without hashes answers every query with true.
\<close>

lemma group_medians_replicate_empty:
  "0 < n \<Longrightarrow> group_medians p (replicate n []) = Inl IndexError"
  by (cases n) (simp_all add: group_median_def)

lemma multiple_degenerate_estimate:
  "ng \<le> 0 \<Longrightarrow>
     multiple_estimate_cardinality (multiple_init rnd ng hpg) = Inl ZeroDivisionError"
  "0 < ng \<Longrightarrow> hpg \<le> 0 \<Longrightarrow>
     multiple_estimate_cardinality (multiple_init rnd ng hpg) = Inl IndexError"
  by (simp_all add: multiple_estimate_cardinality_def multiple_init_def mean_estimate_def
      group_medians_replicate_empty)

lemma bloom_zero_size_add:
  "0 < k \<Longrightarrow>
     bloom_add hfn \<lparr>size_bf = 0, hash_count = k, bit_array = []\<rparr> v = Inl ZeroDivisionError"
  by (simp add: bloom_add_def bloom_hashes_def)

lemma bloom_no_hashes_query:
  "k \<le> 0 \<Longrightarrow>
     bloom_query hfn \<lparr>size_bf = m, hash_count = k, bit_array = bits\<rparr> v = Inr True"
  by (simp add: bloom_query_def bloom_hashes_def)

text \<open>
  \<^bold>\<open>C5\<close>, as the code has it. Neither constructor checks its parameters.
  \<^verbatim>\<open>FlajoletMartinMultiple\<close> is constructed for all integers: the parameters are
  stored unchanged and the matrix has \<open>nat ng\<close> rows of \<open>nat hpg\<close> zero cells, none
  for non-positive values. \<^verbatim>\<open>BloomFilter\<close> is constructed for every bitmap size from
  zero on and every hash count, again storing both unchanged; a negative bitmap size
  alone fails, with the ValueError of the bitarray library.
\<close>

theorem construction_without_validation:
  "num_groups (multiple_init rnd ng hpg) = ng \<and>
   hashes_per_group (multiple_init rnd ng hpg) = hpg \<and>
   num_hashes (multiple_init rnd ng hpg) = ng * hpg \<and>
   max_tail_length_m (multiple_init rnd ng hpg) = replicate (nat ng) (replicate (nat hpg) 0) \<and>
   length (seeds (multiple_init rnd ng hpg)) = nat (ng * hpg) \<and>
   wf_multiple (multiple_init rnd ng hpg) \<and>
   (0 \<le> m \<longrightarrow>
      bloom_init m k = Inr \<lparr>size_bf = m, hash_count = k, bit_array = replicate (nat m) False\<rparr>) \<and>
   (m' < 0 \<longrightarrow> bloom_init m' k = Inl ValueError)"
  using multiple_init_wf [of rnd ng hpg]
  by (simp add: multiple_init_def bloom_init_def)

text \<open>
  The theorem at non-positive parameters: zero groups of minus two hashes, and bitmap
  sizes zero and minus one with the hash count minus one.
\<close>

theorem construction_without_validation_witness:
  "num_groups (multiple_init stub_randint 0 (- 2)) = 0 \<and>
   hashes_per_group (multiple_init stub_randint 0 (- 2)) = - 2 \<and>
   max_tail_length_m (multiple_init stub_randint 0 (- 2)) = [] \<and>
   wf_multiple (multiple_init stub_randint 0 (- 2)) \<and>
   (0::int) \<le> 0 \<and>
   bloom_init 0 (- 1) = Inr \<lparr>size_bf = 0, hash_count = - 1, bit_array = []\<rparr> \<and>
   (- 1 :: int) < 0 \<and> bloom_init (- 1) (- 1) = Inl ValueError"
  using construction_without_validation [of stub_randint 0 "- 2" 0 "- 1" "- 1"]
  by simp

text \<open>
  The claim as stated fails at these inputs: with a zero bitmap size and a zero hash count
  the constructor returns an instance, and so it does with no groups.
\<close>

theorem construction_non_positive_succeeds:
  "bloom_init 0 0 = Inr \<lparr>size_bf = 0, hash_count = 0, bit_array = []\<rparr> \<and>
   num_groups (multiple_init stub_randint 0 (- 2)) = 0 \<and>
   hashes_per_group (multiple_init stub_randint 0 (- 2)) = - 2 \<and>
   max_tail_length_m (multiple_init stub_randint 0 (- 2)) = []"
  by (simp add: bloom_init_def multiple_init_def)

end
